theory Spec2Isabelle
  imports Main "HOL-Library.AList" "HOL-Library.Sublist"
begin

section \<open>Data model\<close>

text \<open>
  The development embeds \<^verbatim>\<open>src/api/session_store.py\<close> (class \<^verbatim>\<open>SessionStore\<close>) and the
  response cache of \<^verbatim>\<open>src/api/document_processor.py\<close> (class \<^verbatim>\<open>DocumentProcessor\<close>).

  \<^item> A Python \<^verbatim>\<open>dict\<close> is an association list in insertion order: \<open>AList.update\<close>
    overwrites a present key in place and appends an absent one, as \<^verbatim>\<open>d[k] = v\<close> does;
    \<open>AList.delete\<close> is \<^verbatim>\<open>del d[k]\<close>; \<open>map_of\<close> is the lookup; \<open>length\<close> is \<^verbatim>\<open>len\<close>
    (the keys of a dict are distinct).
  \<^item> A \<^verbatim>\<open>datetime\<close> is an \<open>int\<close> (ticks of the clock), a \<^verbatim>\<open>timedelta\<close> an \<open>int\<close> too.
    Every call of \<^verbatim>\<open>datetime.now()\<close> is a parameter of the operation that makes it, in
    the order of the calls. \<^verbatim>\<open>isoformat\<close> followed by \<^verbatim>\<open>fromisoformat\<close> is the identity.
  \<^item> The directory \<^verbatim>\<open>base_dir\<close> is an association list from file names to file contents.
    Opening, reading and writing a file succeed. The calls that \<^verbatim>\<open>delete_session\<close> makes
    can raise: \<open>delete_session_io\<close> has the file names for which they do as a
    parameter, and \<open>delete_session\<close> is its instance for a file system on which none
    does.
  \<^item> \<^verbatim>\<open>pickle.loads (pickle.dumps p)\<close> is \<open>p\<close>.
\<close>

datatype py_error = IndexError | ValueError | RuntimeError

text \<open>A Python \<^verbatim>\<open>str\<close> that the program inspects (a query, the text of an answer) is the
  list of its code points; \<open>py_str\<close> gives the \<^verbatim>\<open>str\<close> of a literal whose characters are
  below 256. Session ids, file names and client addresses are only compared and
  concatenated, and stay \<open>string\<close>s.\<close>

type_synonym pystr = "nat list"

definition py_str :: "string \<Rightarrow> pystr" where
  "py_str cs = map of_char cs"

text \<open>One source node of a query answer: the two metadata entries the code reads.\<close>

record source_node =
  node_is_code :: bool
  node_language :: "string option"

text \<open>The dataclass \<^verbatim>\<open>QueryResponse\<close>; the dict stored in the response cache has the same
  five entries, so one record stands for both. The response time is a difference of two
  clock readings, in ticks.\<close>

record query_response =
  response :: pystr
  source_nodes :: "source_node list"
  is_code :: bool
  language :: string
  response_time :: int

text \<open>The attributes of a \<^verbatim>\<open>DocumentProcessor\<close> that the two classes read. \<open>index = None\<close>
  stands for an attribute that is missing or \<^verbatim>\<open>None\<close>; the index itself is opaque.\<close>

record processor =
  index :: "string option"
  response_cache :: "(pystr \<times> query_response) list"
  cache_size :: int

record metadata =
  session_id :: string
  created_at :: int
  last_accessed :: int
  ip_address :: "string option"

text \<open>What a file of \<^verbatim>\<open>base_dir\<close> holds: a pickled processor, a JSON metadata object with the
  four keys \<^verbatim>\<open>save_session\<close> writes, or content that is neither a pickle nor a JSON object
  (reading it as either raises). Session ids are plain file name stems: the two files of
  a session are in \<^verbatim>\<open>base_dir\<close> itself.\<close>

datatype file_content = Pickled processor | MetaJson metadata | OtherContent

record session_store =
  max_sessions_per_ip :: int
  session_timeout :: int
  ip_sessions :: "(string \<times> string list) list"
  session_cache :: "(string \<times> (processor \<times> int)) list"
  max_cache_size :: int
  files :: "(string \<times> file_content) list"

text \<open>\<^verbatim>\<open>SessionStore.__init__\<close> on an empty directory; the timeout is
  \<^verbatim>\<open>timedelta(hours=...)\<close> already converted to ticks.\<close>

definition init_store :: "int \<Rightarrow> int \<Rightarrow> session_store" where
  "init_store max_per_ip timeout =
     \<lparr> max_sessions_per_ip = max_per_ip, session_timeout = timeout, ip_sessions = [],
       session_cache = [], max_cache_size = 50, files = [] \<rparr>"

section \<open>The session store\<close>

definition get_session_path :: "string \<Rightarrow> string" where
  "get_session_path sid = sid @ ''.pkl''"

definition get_metadata_path :: "string \<Rightarrow> string" where
  "get_metadata_path sid = sid @ ''_meta.json''"

text \<open>\<^verbatim>\<open>delete_session\<close> on a file system whose calls can fail. \<open>raises f\<close> says that
  \<^verbatim>\<open>exists\<close> or \<^verbatim>\<open>remove\<close> raises for the file name \<open>f\<close> (for a name that is too long,
  \<^verbatim>\<open>exists\<close> raises an \<^verbatim>\<open>OSError\<close>). The cache entry is removed first; then the payload
  file and the metadata file are removed when present; the call returns \<^verbatim>\<open>True\<close>. A call
  that raises inside the \<^verbatim>\<open>try\<close> ends in the \<^verbatim>\<open>except\<close> branch, which returns \<^verbatim>\<open>False\<close>
  and keeps what has been done so far. The quota lists are not touched on any path.\<close>

definition delete_session_io ::
  "(string \<Rightarrow> bool) \<Rightarrow> string \<Rightarrow> session_store \<Rightarrow> bool \<times> session_store" where
  "delete_session_io raises sid s =
     (let s1 = s\<lparr> session_cache := AList.delete sid (session_cache s) \<rparr> in
      if raises (get_session_path sid) then (False, s1)
      else
        let s2 = s1\<lparr> files := AList.delete (get_session_path sid) (files s1) \<rparr> in
        if raises (get_metadata_path sid) then (False, s2)
        else (True, s2\<lparr> files := AList.delete (get_metadata_path sid) (files s2) \<rparr>))"

text \<open>Two file systems: one on which no call raises, and one on which the calls raise for
  the file names of more than 255 characters.\<close>

definition no_failure :: "string \<Rightarrow> bool" where
  "no_failure f = False"

definition name_too_long :: "string \<Rightarrow> bool" where
  "name_too_long f = (255 < length f)"

text \<open>Everything else in this development is on the file system on which no call raises;
  there \<^verbatim>\<open>delete_session\<close> is the following.\<close>

definition delete_session :: "string \<Rightarrow> session_store \<Rightarrow> bool \<times> session_store" where
  "delete_session sid s = delete_session_io no_failure sid s"

definition get_sessions_for_ip :: "session_store \<Rightarrow> string \<Rightarrow> string list" where
  "get_sessions_for_ip s ip = (case map_of (ip_sessions s) ip of None \<Rightarrow> [] | Some l \<Rightarrow> l)"

text \<open>Lines 88--97 of \<^verbatim>\<open>save_session\<close>. A missing or empty address is falsy and skips the
  block. \<^verbatim>\<open>ip_sessions[0]\<close> on an empty list raises \<^verbatim>\<open>IndexError\<close> before anything is
  changed.\<close>

definition register_ip :: "string \<Rightarrow> string option \<Rightarrow> session_store \<Rightarrow> py_error + session_store" where
  "register_ip sid ip s =
     (case ip of
        None \<Rightarrow> Inr s
      | Some a \<Rightarrow>
          if a = [] then Inr s
          else
            let l = get_sessions_for_ip s a in
            if int (length l) \<ge> max_sessions_per_ip s then
              (case l of
                 [] \<Rightarrow> Inl IndexError
               | oldest_session # rest \<Rightarrow>
                   let s1 = snd (delete_session oldest_session s) in
                   Inr (s1\<lparr> ip_sessions := AList.update a (rest @ [sid]) (ip_sessions s1) \<rparr>))
            else Inr (s\<lparr> ip_sessions := AList.update a (l @ [sid]) (ip_sessions s) \<rparr>))"

text \<open>\<^verbatim>\<open>min(cache, key=lambda k: cache[k][1])\<close>: the first key, in iteration order, whose
  timestamp is the least. \<open>None\<close> is the \<^verbatim>\<open>ValueError\<close> of \<^verbatim>\<open>min\<close> on an empty dict.\<close>

fun oldest_from :: "string \<Rightarrow> int \<Rightarrow> (string \<times> (processor \<times> int)) list \<Rightarrow> string" where
  "oldest_from k t [] = k"
| "oldest_from k t ((k', (p, t')) # rest) =
     (if t' < t then oldest_from k' t' rest else oldest_from k t rest)"

definition oldest_key :: "(string \<times> (processor \<times> int)) list \<Rightarrow> string option" where
  "oldest_key c = (case c of [] \<Rightarrow> None | (k, (p, t)) # rest \<Rightarrow> Some (oldest_from k t rest))"

text \<open>Lines 99--105 of \<^verbatim>\<open>save_session\<close>: the entry is written, then one entry is evicted
  if the dict is larger than \<^verbatim>\<open>_max_cache_size\<close>.\<close>

definition cache_insert :: "string \<Rightarrow> processor \<Rightarrow> int \<Rightarrow> session_store \<Rightarrow> session_store" where
  "cache_insert sid p now s =
     (let c = AList.update sid (p, now) (session_cache s) in
      if int (length c) > max_cache_size s then
        (case oldest_key c of
           None \<Rightarrow> s\<lparr> session_cache := c \<rparr>
         | Some k \<Rightarrow> s\<lparr> session_cache := AList.delete k c \<rparr>)
      else s\<lparr> session_cache := c \<rparr>)"

text \<open>Lines 107--118 of \<^verbatim>\<open>save_session\<close>: the payload file and the metadata file.\<close>

definition write_session_files ::
  "string \<Rightarrow> processor \<Rightarrow> string option \<Rightarrow> int \<Rightarrow> int \<Rightarrow> session_store \<Rightarrow> session_store" where
  "write_session_files sid p ip now_created now_accessed s =
     s\<lparr> files :=
          AList.update (get_metadata_path sid)
            (MetaJson \<lparr> session_id = sid, created_at = now_created,
                        last_accessed = now_accessed, ip_address = ip \<rparr>)
            (AList.update (get_session_path sid) (Pickled p) (files s)) \<rparr>"

text \<open>\<^verbatim>\<open>save_session\<close>. The three clock readings are those of lines 100, 113 and 114.
  \<open>Inl e\<close>: the call raised \<open>e\<close>, with the store as it was.\<close>

definition save_session ::
  "string \<Rightarrow> processor \<Rightarrow> string option \<Rightarrow> int \<Rightarrow> int \<Rightarrow> int \<Rightarrow> session_store
     \<Rightarrow> py_error + session_store" where
  "save_session sid p ip now_cache now_created now_accessed s =
     (case register_ip sid ip s of
        Inl e \<Rightarrow> Inl e
      | Inr s1 \<Rightarrow>
          Inr (write_session_files sid p ip now_created now_accessed
                 (cache_insert sid p now_cache s1)))"

text \<open>\<^verbatim>\<open>load_session\<close>. A hit refreshes the timestamp of the cache entry and nothing else.
  A miss reads the payload file; a payload without index is refused; otherwise the entry
  is put into the cache (no size check here) and \<^verbatim>\<open>last_accessed\<close> of the metadata file,
  if there is one, is rewritten. Every exception inside the \<^verbatim>\<open>try\<close> gives \<^verbatim>\<open>None\<close>, with
  the changes made so far kept. The clock readings are those of line 125 or 146
  (\<open>now_cache\<close>) and of line 153 (\<open>now_meta\<close>).\<close>

definition load_session ::
  "string \<Rightarrow> int \<Rightarrow> int \<Rightarrow> session_store \<Rightarrow> processor option \<times> session_store" where
  "load_session sid now_cache now_meta s =
     (case map_of (session_cache s) sid of
        Some (p, t) \<Rightarrow>
          (Some p, s\<lparr> session_cache := AList.update sid (p, now_cache) (session_cache s) \<rparr>)
      | None \<Rightarrow>
          (case map_of (files s) (get_session_path sid) of
             None \<Rightarrow> (None, s)
           | Some (Pickled p) \<Rightarrow>
               if index p = None then (None, s)
               else
                 let s1 = s\<lparr> session_cache := AList.update sid (p, now_cache) (session_cache s) \<rparr> in
                 (case map_of (files s1) (get_metadata_path sid) of
                    None \<Rightarrow> (Some p, s1)
                  | Some (MetaJson m) \<Rightarrow>
                      (Some p, s1\<lparr> files := AList.update (get_metadata_path sid)
                                             (MetaJson (m\<lparr> last_accessed := now_meta \<rparr>)) (files s1) \<rparr>)
                  | Some _ \<Rightarrow> (None, s1))
           | Some _ \<Rightarrow> (None, s)))"

text \<open>One iteration of the loop of \<^verbatim>\<open>_cleanup_old_sessions\<close>, at clock reading \<open>now\<close>.
  First the expired cache entries are collected and deleted. Then the metadata files are
  listed (\<^verbatim>\<open>glob("*_meta.json")\<close>, here in the order of the directory list) and read one
  by one; a file that has vanished meanwhile or does not parse raises inside the inner
  \<^verbatim>\<open>try\<close> and is skipped.\<close>

definition expired_keys :: "int \<Rightarrow> session_store \<Rightarrow> string list" where
  "expired_keys now s =
     map fst (filter (\<lambda>(k, (p, t)). now - t > session_timeout s) (session_cache s))"

definition clean_memory_cache :: "int \<Rightarrow> session_store \<Rightarrow> session_store" where
  "clean_memory_cache now s =
     s\<lparr> session_cache := fold AList.delete (expired_keys now s) (session_cache s) \<rparr>"

definition glob_meta_files :: "session_store \<Rightarrow> string list" where
  "glob_meta_files s = filter (suffix ''_meta.json'') (map fst (files s))"

definition clean_meta_file :: "int \<Rightarrow> string \<Rightarrow> session_store \<Rightarrow> session_store" where
  "clean_meta_file now meta_file s =
     (case map_of (files s) meta_file of
        Some (MetaJson m) \<Rightarrow>
          if now - last_accessed m > session_timeout s
          then snd (delete_session (session_id m) s) else s
      | _ \<Rightarrow> s)"

definition cleanup_scan :: "int \<Rightarrow> session_store \<Rightarrow> session_store" where
  "cleanup_scan now s =
     (let s1 = clean_memory_cache now s in
      fold (clean_meta_file now) (glob_meta_files s1) s1)"

text \<open>A list of \<^verbatim>\<open>save_session\<close> calls for one client address, each with its session id,
  payload and three clock readings, made one after the other; the first call that raises
  ends the run.\<close>

fun save_sessions ::
  "string option \<Rightarrow> (string \<times> processor \<times> int \<times> int \<times> int) list \<Rightarrow> session_store
     \<Rightarrow> py_error + session_store" where
  "save_sessions ip [] s = Inr s"
| "save_sessions ip ((sid, p, t1, t2, t3) # calls) s =
     (case save_session sid p ip t1 t2 t3 s of
        Inl e \<Rightarrow> Inl e
      | Inr s' \<Rightarrow> save_sessions ip calls s')"

text \<open>A session is in none of the two storage tiers: no cache entry, no payload file, no
  metadata file.\<close>

definition session_absent :: "string \<Rightarrow> session_store \<Rightarrow> bool" where
  "session_absent sid s =
     (map_of (session_cache s) sid = None \<and>
      map_of (files s) (get_session_path sid) = None \<and>
      map_of (files s) (get_metadata_path sid) = None)"

text \<open>The capacity check of lines 103--105 removes the entry that the same call has just
  written at line 100: after the insertion the dict is larger than \<^verbatim>\<open>_max_cache_size\<close>, and
  the new key is the first one with the least timestamp.\<close>

definition evicts_own_entry :: "string \<Rightarrow> processor \<Rightarrow> int \<Rightarrow> session_store \<Rightarrow> bool" where
  "evicts_own_entry sid p now s =
     (let c = AList.update sid (p, now) (session_cache s) in
      int (length c) > max_cache_size s \<and> oldest_key c = Some sid)"

section \<open>The response cache of a document processor\<close>

text \<open>
  The model of \<^verbatim>\<open>str.strip\<close> and \<^verbatim>\<open>str.lower\<close> covers the code points below 256 and the
  Greek letters \<^verbatim>\<open>U+03A3\<close> (931, capital sigma), \<^verbatim>\<open>U+03C2\<close> (962, final small sigma) and
  \<^verbatim>\<open>U+03C3\<close> (963, small sigma). On these, \<^verbatim>\<open>str.isspace\<close> holds of 9--13, 28--32, 133
  and 160. \<^verbatim>\<open>str.lower\<close> adds 32 to 65--90 and to 192--222 except 215 and leaves the other
  code points below 256 and the two small sigmas as they are. It turns a capital sigma
  into the final small sigma when the sigma ends a word, and into the small sigma
  otherwise. A sigma ends a word when, with the case-ignorable code points left out, the
  code point before it is cased and the code point after it, if there is one, is not.
\<close>

definition py_isspace :: "nat \<Rightarrow> bool" where
  "py_isspace c = ((9 \<le> c \<and> c \<le> 13) \<or> (28 \<le> c \<and> c \<le> 32) \<or> c = 133 \<or> c = 160)"

definition py_lower_char :: "nat \<Rightarrow> nat" where
  "py_lower_char c =
     (if (65 \<le> c \<and> c \<le> 90) \<or> (192 \<le> c \<and> c \<le> 222 \<and> c \<noteq> 215) then c + 32
      else if c = 931 then 963
      else c)"

definition py_cased :: "nat \<Rightarrow> bool" where
  "py_cased c =
     ((65 \<le> c \<and> c \<le> 90) \<or> (97 \<le> c \<and> c \<le> 122) \<or> c = 170 \<or> c = 181 \<or> c = 186 \<or>
      (192 \<le> c \<and> c \<le> 214) \<or> (216 \<le> c \<and> c \<le> 246) \<or> (248 \<le> c \<and> c \<le> 255) \<or>
      c = 931 \<or> c = 962 \<or> c = 963)"

definition py_case_ignorable :: "nat \<Rightarrow> bool" where
  "py_case_ignorable c = (c \<in> {39, 46, 58, 94, 96, 168, 173, 175, 180, 183, 184})"

text \<open>\<open>before\<close> is the part of the string before the sigma, last code point first;
  \<open>after\<close> is the part after it.\<close>

definition final_sigma :: "pystr \<Rightarrow> pystr \<Rightarrow> bool" where
  "final_sigma before after =
     ((case dropWhile py_case_ignorable before of [] \<Rightarrow> False | b # bs \<Rightarrow> py_cased b) \<and>
      (case dropWhile py_case_ignorable after of [] \<Rightarrow> True | a # as \<Rightarrow> \<not> py_cased a))"

fun lower_from :: "pystr \<Rightarrow> pystr \<Rightarrow> pystr" where
  "lower_from before [] = []"
| "lower_from before (c # rest) =
     (if c = 931 \<and> final_sigma before rest then 962 else py_lower_char c) #
     lower_from (c # before) rest"

definition py_lower :: "pystr \<Rightarrow> pystr" where
  "py_lower q = lower_from [] q"

definition py_strip :: "pystr \<Rightarrow> pystr" where
  "py_strip q = rev (dropWhile py_isspace (rev (dropWhile py_isspace q)))"

text \<open>Line 170: \<^verbatim>\<open>cache_key = query.strip().lower()\<close>.\<close>

definition cache_key :: "pystr \<Rightarrow> pystr" where
  "cache_key query = py_lower (py_strip query)"

text \<open>\<^verbatim>\<open>DocumentProcessor.__init__\<close>, with the index it is given later.\<close>

definition init_processor :: "string option \<Rightarrow> processor" where
  "init_processor idx = \<lparr> index = idx, response_cache = [], cache_size = 100 \<rparr>"

text \<open>Lines 171--174: the lookup.\<close>

definition cache_get :: "pystr \<Rightarrow> processor \<Rightarrow> query_response option" where
  "cache_get key p = map_of (response_cache p) key"

text \<open>Lines 207--217: the insertion. A full cache first loses its first key in iteration
  order. \<^verbatim>\<open>next(iter(...))\<close> on an empty dict raises \<^verbatim>\<open>StopIteration\<close>, which leaves the
  coroutine as a \<^verbatim>\<open>RuntimeError\<close>.\<close>

definition cache_put :: "pystr \<Rightarrow> query_response \<Rightarrow> processor \<Rightarrow> py_error + processor" where
  "cache_put key r p =
     (if int (length (response_cache p)) \<ge> cache_size p then
        (case response_cache p of
           [] \<Rightarrow> Inl RuntimeError
         | (k, v) # rest \<Rightarrow>
             Inr (p\<lparr> response_cache := AList.update key r (AList.delete k (response_cache p)) \<rparr>))
      else Inr (p\<lparr> response_cache := AList.update key r (response_cache p) \<rparr>))"

text \<open>Line 191. The first node is read only when some node is code, so the list is not
  empty there.\<close>

definition first_language :: "source_node list \<Rightarrow> string" where
  "first_language nodes =
     (case nodes of
        [] \<Rightarrow> ''python''
      | n # rest \<Rightarrow> (case node_language n of None \<Rightarrow> ''python'' | Some l \<Rightarrow> l))"

text \<open>\<^verbatim>\<open>query_document\<close>. The query engine is a parameter: it raises, or returns nothing
  (a falsy response), or the text and the source nodes of the answer. \<open>start_time\<close> and
  \<open>end_time\<close> are the two readings of \<^verbatim>\<open>time()\<close>. \<open>Inl e\<close>: the call raised \<open>e\<close>, with the
  processor as it was.\<close>

definition query_document ::
  "pystr \<Rightarrow> (pystr \<Rightarrow> py_error + (pystr \<times> source_node list) option) \<Rightarrow> int \<Rightarrow> int \<Rightarrow> processor
     \<Rightarrow> py_error + (query_response \<times> processor)" where
  "query_document query engine start_time end_time p =
     (if index p = None then Inl ValueError
      else
        (case cache_get (cache_key query) p of
           Some cached \<Rightarrow> Inr (cached, p)
         | None \<Rightarrow>
             (case engine query of
                Inl e \<Rightarrow> Inl e
              | Inr None \<Rightarrow> Inl ValueError
              | Inr (Some (text, nodes)) \<Rightarrow>
                  if py_strip text = [] then Inl ValueError
                  else
                    let code = list_ex node_is_code nodes;
                        result = \<lparr> response = text, source_nodes = nodes, is_code = code,
                                   language = (if code then first_language nodes else ''python''),
                                   response_time = end_time - start_time \<rparr>
                    in (case cache_put (cache_key query) result p of
                          Inl e \<Rightarrow> Inl e
                        | Inr p' \<Rightarrow> Inr (result, p')))))"





section \<open>Example inputs\<close>

text \<open>A processor after \<^verbatim>\<open>process_file\<close>, and one that never indexed a document.\<close>

definition indexed_processor :: processor where
  "indexed_processor = init_processor (Some ''index'')"

definition bare_processor :: processor where
  "bare_processor = init_processor None"

text \<open>The default store: five sessions per address, 24 hours in seconds.\<close>

definition default_store :: session_store where
  "default_store = init_store 5 86400"

text \<open>\<open>fill n t\<close> is \<open>n\<close> calls \<^verbatim>\<open>save_session(id, processor)\<close>, all at clock reading
  \<open>t\<close>; the ids are the one-character strings \<^verbatim>\<open>0\<close>, \<^verbatim>\<open>1\<close>, ... in the order of their
  character codes.\<close>

definition fill :: "nat \<Rightarrow> int \<Rightarrow> (string \<times> processor \<times> int \<times> int \<times> int) list" where
  "fill n t = map (\<lambda>i. ([char_of (48 + i)], indexed_processor, t, t, t)) [0..<n]"

text \<open>\<open>warm_store q t0 t\<close> is the default store after 50 calls \<^verbatim>\<open>save_session(id, processor)\<close>:
  first the id \<^verbatim>\<open>doc\<close> with the payload \<open>q\<close> at clock reading \<open>t0\<close>, then the first 49 ids of
  \<open>fill\<close> at clock reading \<open>t\<close>. Its hot cache is full.\<close>

definition warm_store :: "processor \<Rightarrow> int \<Rightarrow> int \<Rightarrow> session_store" where
  "warm_store q t0 t =
     projr (save_sessions None ((''doc'', q, t0, t0, t0) # fill 49 t) default_store)"

text \<open>A new \<^verbatim>\<open>SessionStore\<close> on the directory of \<open>s\<close> with the same parameters, as after a
  restart of the process: \<^verbatim>\<open>__init__\<close> starts with empty dicts and keeps the files.\<close>

definition restart :: "session_store \<Rightarrow> session_store" where
  "restart s =
     \<lparr> max_sessions_per_ip = max_sessions_per_ip s, session_timeout = session_timeout s,
       ip_sessions = [], session_cache = [], max_cache_size = 50, files = files s \<rparr>"

text \<open>A query engine that answers every query with the same text and no source node, and
  one that raises on every query.\<close>

definition constant_engine :: "pystr \<Rightarrow> pystr \<Rightarrow> py_error + (pystr \<times> source_node list) option" where
  "constant_engine text q = Inr (Some (text, []))"


text \<open>A processor whose response cache holds 100 answers, for the queries \<^verbatim>\<open>00\<close>, \<^verbatim>\<open>01\<close>,
  ..., \<^verbatim>\<open>99\<close> in this order (48 is the code point of the digit 0).\<close>

definition sample_response :: query_response where
  "sample_response =
     \<lparr> response = py_str ''Hi'', source_nodes = [], is_code = False, language = ''python'',
       response_time = 1 \<rparr>"

definition full_processor :: processor where
  "full_processor =
     indexed_processor
       \<lparr> response_cache :=
           map (\<lambda>i. ([48 + i div 10, 48 + i mod 10], sample_response)) [0..<100] \<rparr>"

text \<open>The list of a client after lines 89--96, from its list \<open>l\<close> before them and the
  limit \<open>m\<close>: the head is dropped when the list is full, and the new id is appended.\<close>

definition quota_step :: "int \<Rightarrow> string list \<Rightarrow> string \<Rightarrow> string list" where
  "quota_step m l sid = (if m \<le> int (length l) then tl l else l) @ [sid]"

section \<open>Paths and frame facts\<close>

lemma session_path_inj [simp]: "get_session_path a = get_session_path b \<longleftrightarrow> a = b"
  by (simp add: get_session_path_def)

lemma metadata_path_inj [simp]: "get_metadata_path a = get_metadata_path b \<longleftrightarrow> a = b"
  by (simp add: get_metadata_path_def)

lemma session_path_not_metadata [simp]:
  "get_session_path a \<noteq> get_metadata_path b" "get_metadata_path b \<noteq> get_session_path a"
proof -
  have "last (get_session_path a) \<noteq> last (get_metadata_path b)"
    by (simp add: get_session_path_def get_metadata_path_def)
  then show "get_session_path a \<noteq> get_metadata_path b" "get_metadata_path b \<noteq> get_session_path a"
    by auto
qed

lemma delete_session_eq:
  "delete_session sid s =
     (True, s\<lparr> session_cache := AList.delete sid (session_cache s),
               files := AList.delete (get_metadata_path sid)
                          (AList.delete (get_session_path sid) (files s)) \<rparr>)"
  by (simp add: delete_session_def delete_session_io_def no_failure_def)

lemma map_of_delete_same [simp]: "map_of (AList.delete k al) k = None"
  by (simp add: delete_conv')

lemma delete_session_cache [simp]:
  "map_of (session_cache (snd (delete_session sid s))) k =
     (if k = sid then None else map_of (session_cache s) k)"
  by (simp add: delete_session_eq delete_conv')

lemma delete_session_files [simp]:
  "map_of (files (snd (delete_session sid s))) f =
     (if f = get_session_path sid \<or> f = get_metadata_path sid then None else map_of (files s) f)"
  by (simp add: delete_session_eq delete_conv')

lemma delete_session_frame [simp]:
  "ip_sessions (snd (delete_session sid s)) = ip_sessions s"
  "max_sessions_per_ip (snd (delete_session sid s)) = max_sessions_per_ip s"
  "session_timeout (snd (delete_session sid s)) = session_timeout s"
  "max_cache_size (snd (delete_session sid s)) = max_cache_size s"
  by (simp_all add: delete_session_eq)

lemma delete_session_returns_True [simp]: "fst (delete_session sid s) = True"
  by (simp add: delete_session_eq)

section \<open>Deleting a session\<close>

lemma delete_session_io_frame:
  "ip_sessions (snd (delete_session_io raises sid s)) = ip_sessions s"
  by (simp add: delete_session_io_def Let_def)

text \<open>When \<^verbatim>\<open>exists\<close> raises for the payload file, the call returns \<^verbatim>\<open>False\<close> and has
  removed the cache entry only: this is what happens to an id of more than 251
  characters.\<close>

lemma delete_session_io_fails:
  "raises (get_session_path sid) \<Longrightarrow>
     delete_session_io raises sid s =
       (False, s\<lparr> session_cache := AList.delete sid (session_cache s) \<rparr>)"
  by (simp add: delete_session_io_def)

lemma delete_of_long_id_returns_False:
  "fst (delete_session_io name_too_long (replicate 252 CHR ''x'') s) = False"
  by (simp add: delete_session_io_def name_too_long_def get_session_path_def)

lemma delete_session_io_True_iff:
  "fst (delete_session_io raises sid s) \<longleftrightarrow>
     \<not> raises (get_session_path sid) \<and> \<not> raises (get_metadata_path sid)"
  by (simp add: delete_session_io_def Let_def)

text \<open>
  C2, as amended. Let the session id \<open>s\<close> be registered under the client id \<open>c\<close> and let
  \<^verbatim>\<open>delete_session(s)\<close> be successful, that is, return \<^verbatim>\<open>True\<close>. Then afterwards \<open>s\<close> has
  no entry in the hot cache and neither its payload file nor its metadata file exists.
  The quota tracker is left as it was: \<^verbatim>\<open>get_sessions_for_ip(c)\<close> returns the same list
  as before the delete, and \<open>s\<close> is still in it.
\<close>

theorem delete_session_two_tiers:
  assumes "delete_session_io raises sid s = (True, s')"
    and "sid \<in> set (get_sessions_for_ip s c)"
  shows "map_of (session_cache s') sid = None \<and>
         map_of (files s') (get_session_path sid) = None \<and>
         map_of (files s') (get_metadata_path sid) = None \<and>
         get_sessions_for_ip s' c = get_sessions_for_ip s c \<and>
         sid \<in> set (get_sessions_for_ip s' c)"
proof -
  from assms(1) have ok: "\<not> raises (get_session_path sid)" "\<not> raises (get_metadata_path sid)"
    using delete_session_io_True_iff [of raises sid s] by simp_all
  from assms(1) ok have s': "s' = s\<lparr> session_cache := AList.delete sid (session_cache s),
      files := AList.delete (get_metadata_path sid)
                 (AList.delete (get_session_path sid) (files s)) \<rparr>"
    by (simp add: delete_session_io_def Let_def)
  have q: "get_sessions_for_ip s' c = get_sessions_for_ip s c"
    by (simp add: s' get_sessions_for_ip_def)
  with assms(2) show ?thesis by (simp add: s' delete_conv')
qed

theorem delete_session_two_tiers_witness:
  "delete_session_io no_failure ''s1''
     (projr (save_session ''s1'' indexed_processor (Some ''c'') 0 0 0 default_store)) =
   (True, snd (delete_session_io no_failure ''s1''
     (projr (save_session ''s1'' indexed_processor (Some ''c'') 0 0 0 default_store)))) \<and>
   get_sessions_for_ip
     (projr (save_session ''s1'' indexed_processor (Some ''c'') 0 0 0 default_store)) ''c'' = [''s1''] \<and>
   session_absent ''s1'' (snd (delete_session_io no_failure ''s1''
     (projr (save_session ''s1'' indexed_processor (Some ''c'') 0 0 0 default_store)))) \<and>
   get_sessions_for_ip (snd (delete_session_io no_failure ''s1''
     (projr (save_session ''s1'' indexed_processor (Some ''c'') 0 0 0 default_store)))) ''c'' = [''s1'']"
proof -
  let ?s = "projr (save_session ''s1'' indexed_processor (Some ''c'') 0 0 0 default_store)"
  have l: "get_sessions_for_ip ?s ''c'' = [''s1'']"
    by (simp add: save_session_def register_ip_def default_store_def init_store_def
        get_sessions_for_ip_def cache_insert_def write_session_files_def Let_def)
  have h1: "delete_session_io no_failure ''s1'' ?s =
      (True, snd (delete_session_io no_failure ''s1'' ?s))"
    by (simp add: delete_session_io_def no_failure_def Let_def)
  have h2: "''s1'' \<in> set (get_sessions_for_ip ?s ''c'')" by (simp add: l)
  from delete_session_two_tiers [OF h1 h2] h1 l show ?thesis
    by (simp add: session_absent_def)
qed

text \<open>
  C2 as stated fails: after \<^verbatim>\<open>save_session("s1", p, "c")\<close> on the default store and a
  successful \<^verbatim>\<open>delete_session("s1")\<close>, the id \<^verbatim>\<open>s1\<close> is still in the list of client \<^verbatim>\<open>c\<close>.
\<close>

theorem delete_session_keeps_quota_entry:
  "\<not> isl (save_session ''s1'' indexed_processor (Some ''c'') 0 0 0 default_store) \<and>
   fst (delete_session ''s1''
         (projr (save_session ''s1'' indexed_processor (Some ''c'') 0 0 0 default_store))) \<and>
   ''s1'' \<in> set (get_sessions_for_ip
      (snd (delete_session ''s1''
         (projr (save_session ''s1'' indexed_processor (Some ''c'') 0 0 0 default_store))))
      ''c'')"
  by (simp add: save_session_def register_ip_def default_store_def init_store_def
      get_sessions_for_ip_def cache_insert_def write_session_files_def delete_session_eq Let_def)

lemma delete_then_load_None: "fst (load_session sid t1 t2 (snd (delete_session sid s))) = None"
  by (simp add: load_session_def)

lemma delete_absent_unchanged:
  assumes "sid \<notin> fst ` set (session_cache s)"
    and "get_session_path sid \<notin> fst ` set (files s)"
    and "get_metadata_path sid \<notin> fst ` set (files s)"
  shows "snd (delete_session sid s) = s"
  using assms by (simp add: delete_session_eq)

lemma delete_session_twice:
  "snd (delete_session sid (snd (delete_session sid s))) = snd (delete_session sid s)"
  by (simp add: delete_session_eq delete_idem delete_twist)

text \<open>
  C3, at the failing input. After \<^verbatim>\<open>save_session("s1", p)\<close> and a first
  \<^verbatim>\<open>delete_session("s1")\<close>, the second \<^verbatim>\<open>delete_session("s1")\<close> returns \<^verbatim>\<open>True\<close>, the
  value of a successful delete, and not a not-found result; it changes nothing, and
  \<^verbatim>\<open>load_session("s1")\<close> after the first delete returns \<^verbatim>\<open>None\<close>.
\<close>

theorem second_delete_reports_success:
  "fst (delete_session ''s1''
     (snd (delete_session ''s1''
        (projr (save_session ''s1'' indexed_processor None 0 0 0 default_store))))) = True \<and>
   snd (delete_session ''s1''
     (snd (delete_session ''s1''
        (projr (save_session ''s1'' indexed_processor None 0 0 0 default_store))))) =
   snd (delete_session ''s1''
        (projr (save_session ''s1'' indexed_processor None 0 0 0 default_store))) \<and>
   fst (load_session ''s1'' 1 1
     (snd (delete_session ''s1''
        (projr (save_session ''s1'' indexed_processor None 0 0 0 default_store))))) = None"
  by (simp add: delete_session_twice delete_then_load_None)

section \<open>The quota of a client\<close>

lemma cache_insert_frame [simp]:
  "ip_sessions (cache_insert sid p t s) = ip_sessions s"
  "max_sessions_per_ip (cache_insert sid p t s) = max_sessions_per_ip s"
  "session_timeout (cache_insert sid p t s) = session_timeout s"
  "max_cache_size (cache_insert sid p t s) = max_cache_size s"
  "files (cache_insert sid p t s) = files s"
  by (simp_all add: cache_insert_def Let_def split: option.splits)

lemma write_session_files_frame [simp]:
  "ip_sessions (write_session_files sid p ip t2 t3 s) = ip_sessions s"
  "max_sessions_per_ip (write_session_files sid p ip t2 t3 s) = max_sessions_per_ip s"
  "session_timeout (write_session_files sid p ip t2 t3 s) = session_timeout s"
  "max_cache_size (write_session_files sid p ip t2 t3 s) = max_cache_size s"
  "session_cache (write_session_files sid p ip t2 t3 s) = session_cache s"
  by (simp_all add: write_session_files_def)

lemma get_sessions_for_ip_update [simp]:
  "get_sessions_for_ip (s\<lparr> ip_sessions := AList.update a l (ip_sessions s') \<rparr>) c =
     (if c = a then l else get_sessions_for_ip s' c)"
  by (simp add: get_sessions_for_ip_def update_conv')

lemma get_sessions_for_ip_cong:
  "ip_sessions s = ip_sessions s' \<Longrightarrow> get_sessions_for_ip s c = get_sessions_for_ip s' c"
  by (simp add: get_sessions_for_ip_def)

lemma register_ip_Some:
  assumes "c \<noteq> []" and "get_sessions_for_ip s c \<noteq> [] \<or> 0 < max_sessions_per_ip s"
  shows "\<exists>s1. register_ip sid (Some c) s = Inr s1 \<and>
           get_sessions_for_ip s1 c =
             quota_step (max_sessions_per_ip s) (get_sessions_for_ip s c) sid \<and>
           max_sessions_per_ip s1 = max_sessions_per_ip s"
  using assms
  by (cases "get_sessions_for_ip s c") (auto simp: register_ip_def quota_step_def Let_def)

lemma save_session_quota:
  assumes "c \<noteq> []" and "get_sessions_for_ip s c \<noteq> [] \<or> 0 < max_sessions_per_ip s"
  shows "\<exists>s'. save_session sid p (Some c) t1 t2 t3 s = Inr s' \<and>
           get_sessions_for_ip s' c =
             quota_step (max_sessions_per_ip s) (get_sessions_for_ip s c) sid \<and>
           max_sessions_per_ip s' = max_sessions_per_ip s"
proof -
  from register_ip_Some [OF assms, of sid] obtain s1 where
    r: "register_ip sid (Some c) s = Inr s1"
    and l: "get_sessions_for_ip s1 c = quota_step (max_sessions_per_ip s) (get_sessions_for_ip s c) sid"
    and m: "max_sessions_per_ip s1 = max_sessions_per_ip s"
    by blast
  have "get_sessions_for_ip (write_session_files sid p (Some c) t2 t3 (cache_insert sid p t1 s1)) c
        = get_sessions_for_ip s1 c"
    by (rule get_sessions_for_ip_cong) simp
  with r l m show ?thesis by (simp add: save_session_def)
qed


lemma save_sessions_quota:
  assumes "c \<noteq> []" and "0 < max_sessions_per_ip s"
    and "int (length (get_sessions_for_ip s c)) \<le> max_sessions_per_ip s"
  shows "\<exists>s'. save_sessions (Some c) calls s = Inr s' \<and>
           get_sessions_for_ip s' c =
             drop (length (get_sessions_for_ip s c @ map fst calls) - nat (max_sessions_per_ip s))
               (get_sessions_for_ip s c @ map fst calls) \<and>
           max_sessions_per_ip s' = max_sessions_per_ip s"
  using assms
proof (induction calls arbitrary: s)
  case Nil
  then show ?case by simp
next
  case (Cons call calls)
  obtain sid p t1 t2 t3 where call: "call = (sid, p, t1, t2, t3)"
    by (cases call) auto
  let ?m = "max_sessions_per_ip s"
  let ?l = "get_sessions_for_ip s c"
  from save_session_quota [of c s sid p t1 t2 t3] Cons.prems obtain s1 where
    s1: "save_session sid p (Some c) t1 t2 t3 s = Inr s1"
    and l1: "get_sessions_for_ip s1 c = quota_step ?m ?l sid"
    and m1: "max_sessions_per_ip s1 = ?m"
    by blast
  have len1: "int (length (get_sessions_for_ip s1 c)) \<le> max_sessions_per_ip s1"
    using Cons.prems(2,3) by (auto simp: l1 m1 quota_step_def)
  from Cons.IH [OF Cons.prems(1) _ len1] Cons.prems(2) m1 obtain s' where
    s': "save_sessions (Some c) calls s1 = Inr s'"
    and l': "get_sessions_for_ip s' c =
        drop (length (get_sessions_for_ip s1 c @ map fst calls) - nat ?m)
          (get_sessions_for_ip s1 c @ map fst calls)"
    and m': "max_sessions_per_ip s' = ?m"
    by auto
  have "drop (length (quota_step ?m ?l sid @ map fst calls) - nat ?m)
          (quota_step ?m ?l sid @ map fst calls) =
        drop (length (?l @ sid # map fst calls) - nat ?m) (?l @ sid # map fst calls)"
  proof (cases "?m \<le> int (length ?l)")
    case False
    then show ?thesis by (simp add: quota_step_def)
  next
    case True
    with Cons.prems(3) have eq: "length ?l = nat ?m" by simp
    with Cons.prems(2) obtain x l0 where xl: "?l = x # l0"
      by (cases ?l) auto
    from eq xl have n: "nat ?m = Suc (length l0)" by simp
    show ?thesis using True by (simp add: quota_step_def xl n)
  qed
  with s1 s' l' m' l1 show ?case by (simp add: call)
qed


lemma cache_insert_keeps_None:
  "k \<noteq> sid \<Longrightarrow> map_of (session_cache s) k = None \<Longrightarrow>
     map_of (session_cache (cache_insert sid p t s)) k = None"
  by (simp add: cache_insert_def Let_def update_conv' delete_conv' split: option.splits)

lemma register_ip_keeps_absent:
  "register_ip sid ip s = Inr s1 \<Longrightarrow> session_absent k s \<Longrightarrow> session_absent k s1"
  by (auto simp: register_ip_def session_absent_def Let_def split: option.splits if_splits list.splits)

lemma register_ip_evicts:
  assumes "c \<noteq> []" and "get_sessions_for_ip s c = x # l0"
    and "max_sessions_per_ip s \<le> int (length (x # l0))"
    and "register_ip sid (Some c) s = Inr s1"
  shows "session_absent x s1"
  using assms by (auto simp: register_ip_def session_absent_def Let_def)

lemma save_session_keeps_absent:
  assumes "save_session sid p ip t1 t2 t3 s = Inr s'" and "session_absent k s" and "k \<noteq> sid"
  shows "session_absent k s'"
proof -
  from assms(1) obtain s1 where r: "register_ip sid ip s = Inr s1"
    and s': "s' = write_session_files sid p ip t2 t3 (cache_insert sid p t1 s1)"
    by (auto simp: save_session_def split: sum.splits)
  from register_ip_keeps_absent [OF r assms(2)] have a1: "session_absent k s1" .
  show ?thesis
    using a1 assms(3)
    by (simp add: s' session_absent_def cache_insert_keeps_None)
       (simp add: write_session_files_def update_conv')
qed

lemma save_session_evicts:
  assumes "c \<noteq> []" and "get_sessions_for_ip s c = x # l0"
    and "max_sessions_per_ip s \<le> int (length (x # l0))"
    and "save_session sid p (Some c) t1 t2 t3 s = Inr s'" and "x \<noteq> sid"
  shows "session_absent x s'"
proof -
  from assms(4) obtain s1 where r: "register_ip sid (Some c) s = Inr s1"
    and s': "s' = write_session_files sid p (Some c) t2 t3 (cache_insert sid p t1 s1)"
    by (auto simp: save_session_def split: sum.splits)
  from register_ip_evicts [OF assms(1,2,3) r] have a1: "session_absent x s1" .
  show ?thesis
    using a1 assms(5)
    by (simp add: s' session_absent_def cache_insert_keeps_None)
       (simp add: write_session_files_def update_conv')
qed

lemma save_sessions_evicted:
  assumes "c \<noteq> []" and "0 < max_sessions_per_ip s"
    and "int (length (get_sessions_for_ip s c)) \<le> max_sessions_per_ip s"
    and "distinct (get_sessions_for_ip s c @ map fst calls)"
    and "\<forall>x\<in>A. session_absent x s" and "A \<inter> set (map fst calls) = {}"
    and "save_sessions (Some c) calls s = Inr s'"
  shows "\<forall>x \<in> A \<union> set (take (length (get_sessions_for_ip s c @ map fst calls) - nat (max_sessions_per_ip s))
                        (get_sessions_for_ip s c @ map fst calls)). session_absent x s'"
  using assms
proof (induction calls arbitrary: s A)
  case Nil
  then show ?case by simp
next
  case (Cons call calls)
  obtain sid p t1 t2 t3 where call: "call = (sid, p, t1, t2, t3)"
    by (cases call) auto
  let ?m = "max_sessions_per_ip s"
  let ?l = "get_sessions_for_ip s c"
  from save_session_quota [of c s sid p t1 t2 t3] Cons.prems obtain s1 where
    s1: "save_session sid p (Some c) t1 t2 t3 s = Inr s1"
    and l1: "get_sessions_for_ip s1 c = quota_step ?m ?l sid"
    and m1: "max_sessions_per_ip s1 = ?m"
    by blast
  from Cons.prems(7) s1 have run: "save_sessions (Some c) calls s1 = Inr s'"
    by (simp add: call)
  have len1: "int (length (get_sessions_for_ip s1 c)) \<le> max_sessions_per_ip s1"
    using Cons.prems(2,3) by (auto simp: l1 m1 quota_step_def)
  have sidA: "sid \<notin> A" using Cons.prems(6) by (auto simp: call)
  have keepA: "\<forall>x\<in>A. session_absent x s1"
    using Cons.prems(5) sidA save_session_keeps_absent [OF s1] by blast
  show ?case
  proof (cases "?m \<le> int (length ?l)")
    case False
    then have ql: "get_sessions_for_ip s1 c = ?l @ [sid]" by (simp add: l1 quota_step_def)
    have d1: "distinct (get_sessions_for_ip s1 c @ map fst calls)"
      using Cons.prems(4) by (simp add: ql call)
    have A1: "A \<inter> set (map fst calls) = {}" using Cons.prems(6) by auto
    from Cons.IH [OF Cons.prems(1) _ len1 d1 keepA A1 run] Cons.prems(2) m1
    show ?thesis by (simp add: ql call)
  next
    case True
    with Cons.prems(3) have eq: "length ?l = nat ?m" by simp
    with Cons.prems(2) obtain x l0 where xl: "?l = x # l0"
      by (cases ?l) auto
    from eq xl have n: "nat ?m = Suc (length l0)" by simp
    have ql: "get_sessions_for_ip s1 c = l0 @ [sid]" using True by (simp add: l1 quota_step_def xl)
    have xsid: "x \<noteq> sid" using Cons.prems(4) by (auto simp: xl call)
    have xabs: "session_absent x s1"
      using save_session_evicts [OF Cons.prems(1) xl _ s1 xsid] True xl by simp
    have d1: "distinct (get_sessions_for_ip s1 c @ map fst calls)"
      using Cons.prems(4) by (simp add: ql call xl)
    have A1: "insert x A \<inter> set (map fst calls) = {}"
      using Cons.prems(4,6) by (auto simp: xl call)
    have keep: "\<forall>y\<in>insert x A. session_absent y s1" using keepA xabs by simp
    from Cons.IH [OF Cons.prems(1) _ len1 d1 keep A1 run] Cons.prems(2) m1
    show ?thesis by (simp add: ql call xl n)
  qed
qed

text \<open>
  C4. Let a client with a non-empty address have no registered session, let the limit
  \<^verbatim>\<open>max_sessions_per_ip\<close> be positive, and let \<^verbatim>\<open>save_session\<close> be called for that client
  with pairwise distinct session ids. Then no call raises; afterwards the list of the
  client holds the last \<^verbatim>\<open>max_sessions_per_ip\<close> ids of the run in the order of their
  registration; every earlier id has been evicted, so that it is in neither storage tier;
  and after every prefix of the run the list is no longer than the limit.
\<close>

theorem quota_keeps_most_recent:
  assumes "c \<noteq> []" and "0 < max_sessions_per_ip s"
    and "get_sessions_for_ip s c = []" and "distinct (map fst calls)"
  shows "\<exists>s'. save_sessions (Some c) calls s = Inr s' \<and>
           get_sessions_for_ip s' c =
             drop (length calls - nat (max_sessions_per_ip s)) (map fst calls) \<and>
           (\<forall>x \<in> set (take (length calls - nat (max_sessions_per_ip s)) (map fst calls)).
              session_absent x s') \<and>
           (\<forall>n. \<exists>sn. save_sessions (Some c) (take n calls) s = Inr sn \<and>
              int (length (get_sessions_for_ip sn c)) \<le> max_sessions_per_ip s)"
proof -
  have len0: "int (length (get_sessions_for_ip s c)) \<le> max_sessions_per_ip s"
    using assms(2,3) by simp
  from save_sessions_quota [OF assms(1,2) len0, of calls] obtain s' where
    run: "save_sessions (Some c) calls s = Inr s'"
    and l': "get_sessions_for_ip s' c =
        drop (length calls - nat (max_sessions_per_ip s)) (map fst calls)"
    by (auto simp: assms(3))
  have d: "distinct (get_sessions_for_ip s c @ map fst calls)"
    using assms(3,4) by simp
  from save_sessions_evicted [OF assms(1,2) len0 d _ _ run, of "{}"]
  have ev: "\<forall>x \<in> set (take (length calls - nat (max_sessions_per_ip s)) (map fst calls)).
      session_absent x s'"
    by (simp add: assms(3))
  have pre: "\<exists>sn. save_sessions (Some c) (take n calls) s = Inr sn \<and>
      int (length (get_sessions_for_ip sn c)) \<le> max_sessions_per_ip s" for n
  proof -
    from save_sessions_quota [OF assms(1,2) len0, of "take n calls"] obtain sn where
      rn: "save_sessions (Some c) (take n calls) s = Inr sn"
      and ln: "get_sessions_for_ip sn c =
        drop (length (take n calls) - nat (max_sessions_per_ip s)) (map fst (take n calls))"
      by (auto simp: assms(3))
    have "length (get_sessions_for_ip sn c) \<le> nat (max_sessions_per_ip s)"
      unfolding ln by simp
    with assms(2) rn show ?thesis by auto
  qed
  from run l' ev pre show ?thesis by blast
qed

theorem quota_keeps_most_recent_witness:
  "''c'' \<noteq> [] \<and> 0 < max_sessions_per_ip (init_store 2 86400) \<and>
   get_sessions_for_ip (init_store 2 86400) ''c'' = [] \<and>
   distinct [''a'', ''b'', ''d''] \<and>
   get_sessions_for_ip
     (projr (save_sessions (Some ''c'')
        [(''a'', indexed_processor, 1, 1, 1), (''b'', indexed_processor, 2, 2, 2),
         (''d'', indexed_processor, 3, 3, 3)] (init_store 2 86400))) ''c'' = [''b'', ''d''] \<and>
   session_absent ''a''
     (projr (save_sessions (Some ''c'')
        [(''a'', indexed_processor, 1, 1, 1), (''b'', indexed_processor, 2, 2, 2),
         (''d'', indexed_processor, 3, 3, 3)] (init_store 2 86400)))"
proof -
  define calls :: "(string \<times> processor \<times> int \<times> int \<times> int) list" where
    "calls = [(''a'', indexed_processor, 1, 1, 1), (''b'', indexed_processor, 2, 2, 2),
              (''d'', indexed_processor, 3, 3, 3)]"
  let ?s = "init_store 2 86400"
  have h1: "''c'' \<noteq> []" by simp
  have h2: "0 < max_sessions_per_ip ?s" by (simp add: init_store_def)
  have h3: "get_sessions_for_ip ?s ''c'' = []" by (simp add: init_store_def get_sessions_for_ip_def)
  have h4: "distinct (map fst calls)" by (simp add: calls_def)
  from quota_keeps_most_recent [OF h1 h2 h3 h4] obtain s' where
    run: "save_sessions (Some ''c'') calls ?s = Inr s'"
    and l: "get_sessions_for_ip s' ''c'' =
        drop (length calls - nat (max_sessions_per_ip ?s)) (map fst calls)"
    and ev: "\<forall>x \<in> set (take (length calls - nat (max_sessions_per_ip ?s)) (map fst calls)).
        session_absent x s'"
    by (elim exE conjE)
  have m: "max_sessions_per_ip ?s = 2" by (simp add: init_store_def)
  from run have p: "projr (save_sessions (Some ''c'') calls ?s) = s'" by simp
  from l have "get_sessions_for_ip s' ''c'' = [''b'', ''d'']" by (simp add: m calls_def)
  moreover from ev have "session_absent ''a'' s'" by (simp add: m calls_def)
  ultimately show ?thesis using h1 h2 h3 p by (simp add: calls_def)
qed

text \<open>
  C10. When \<^verbatim>\<open>save_session(s, payload, c)\<close> is called for an id \<open>s\<close> that is already in
  the list of client \<open>c\<close>, the call returns and \<open>s\<close> is appended once more (after the head
  of a full list has been dropped). Unless the only occurrence of \<open>s\<close> was that head,
  the list then holds \<open>s\<close> at least twice.
\<close>

theorem duplicate_registration:
  assumes "c \<noteq> []" and "sid \<in> set (get_sessions_for_ip s c)"
  shows "\<exists>s'. save_session sid p (Some c) t1 t2 t3 s = Inr s' \<and>
           get_sessions_for_ip s' c =
             (if max_sessions_per_ip s \<le> int (length (get_sessions_for_ip s c))
              then tl (get_sessions_for_ip s c) else get_sessions_for_ip s c) @ [sid] \<and>
           ((sid \<in> set (tl (get_sessions_for_ip s c)) \<or>
             int (length (get_sessions_for_ip s c)) < max_sessions_per_ip s) \<longrightarrow>
              2 \<le> count_list (get_sessions_for_ip s' c) sid)"
proof -
  from assms(2) have ne: "get_sessions_for_ip s c \<noteq> [] \<or> 0 < max_sessions_per_ip s"
    by auto
  from save_session_quota [OF assms(1) ne, of sid p t1 t2 t3] obtain s' where
    run: "save_session sid p (Some c) t1 t2 t3 s = Inr s'"
    and l: "get_sessions_for_ip s' c =
        quota_step (max_sessions_per_ip s) (get_sessions_for_ip s c) sid"
    by blast
  have c1: "0 < count_list xs x" if "x \<in> set xs" for xs :: "string list" and x
    using that by (induction xs) auto
  have "2 \<le> count_list (get_sessions_for_ip s' c) sid"
    if "sid \<in> set (tl (get_sessions_for_ip s c)) \<or>
        int (length (get_sessions_for_ip s c)) < max_sessions_per_ip s"
  proof (cases "max_sessions_per_ip s \<le> int (length (get_sessions_for_ip s c))")
    case True
    with that have "sid \<in> set (tl (get_sessions_for_ip s c))" by auto
    from c1 [OF this] show ?thesis using True by (simp add: l quota_step_def)
  next
    case False
    from c1 [OF assms(2)] show ?thesis using False by (simp add: l quota_step_def)
  qed
  with run l show ?thesis by (auto simp: quota_step_def)
qed

theorem duplicate_registration_witness:
  "''c'' \<noteq> [] \<and>
   ''a'' \<in> set (get_sessions_for_ip
      (projr (save_session ''a'' indexed_processor (Some ''c'') 1 1 1 (init_store 2 86400))) ''c'') \<and>
   get_sessions_for_ip
     (projr (save_session ''a'' indexed_processor (Some ''c'') 2 2 2
        (projr (save_session ''a'' indexed_processor (Some ''c'') 1 1 1 (init_store 2 86400)))))
     ''c'' = [''a'', ''a''] \<and>
   get_sessions_for_ip
     (projr (save_session ''b'' indexed_processor (Some ''c'') 3 3 3
        (projr (save_session ''a'' indexed_processor (Some ''c'') 2 2 2
           (projr (save_session ''a'' indexed_processor (Some ''c'') 1 1 1 (init_store 2 86400)))))))
     ''c'' = [''a'', ''b''] \<and>
   session_absent ''a''
     (projr (save_session ''b'' indexed_processor (Some ''c'') 3 3 3
        (projr (save_session ''a'' indexed_processor (Some ''c'') 2 2 2
           (projr (save_session ''a'' indexed_processor (Some ''c'') 1 1 1 (init_store 2 86400)))))))"
proof -
  let ?s1 = "projr (save_session ''a'' indexed_processor (Some ''c'') 1 1 1 (init_store 2 86400))"
  have later: "get_sessions_for_ip
     (projr (save_session ''b'' indexed_processor (Some ''c'') 3 3 3
        (projr (save_session ''a'' indexed_processor (Some ''c'') 2 2 2 ?s1))))
     ''c'' = [''a'', ''b''] \<and>
   session_absent ''a''
     (projr (save_session ''b'' indexed_processor (Some ''c'') 3 3 3
        (projr (save_session ''a'' indexed_processor (Some ''c'') 2 2 2 ?s1))))"
    by code_simp
  have h1: "''c'' \<noteq> []" by simp
  have l1: "get_sessions_for_ip ?s1 ''c'' = [''a'']"
    by (simp add: save_session_def register_ip_def init_store_def get_sessions_for_ip_def
        cache_insert_def write_session_files_def Let_def)
  have m1: "max_sessions_per_ip ?s1 = 2"
    by (simp add: save_session_def register_ip_def init_store_def get_sessions_for_ip_def
        cache_insert_def write_session_files_def Let_def)
  have h2: "''a'' \<in> set (get_sessions_for_ip ?s1 ''c'')" by (simp add: l1)
  from duplicate_registration [OF h1 h2, of indexed_processor 2 2 2] obtain s' where
    run: "save_session ''a'' indexed_processor (Some ''c'') 2 2 2 ?s1 = Inr s'"
    and l: "get_sessions_for_ip s' ''c'' =
        (if max_sessions_per_ip ?s1 \<le> int (length (get_sessions_for_ip ?s1 ''c''))
         then tl (get_sessions_for_ip ?s1 ''c'') else get_sessions_for_ip ?s1 ''c'') @ [''a'']"
    by (elim exE conjE)
  from run have p: "projr (save_session ''a'' indexed_processor (Some ''c'') 2 2 2 ?s1) = s'"
    by simp
  from l have "get_sessions_for_ip s' ''c'' = [''a'', ''a'']" by (simp add: l1 m1)
  then show ?thesis using h1 h2 later unfolding p by blast
qed

section \<open>The response cache\<close>

















text \<open>Some values of \<^verbatim>\<open>query.strip().lower()\<close>, as the interpreter gives them: whitespace
  of all six kinds is trimmed; a capital sigma becomes the final sigma at the end of a
  word, also before a full stop and after a soft hyphen, and the small sigma elsewhere.\<close>

lemma cache_key_examples:
  "cache_key [9, 72, 101, 108, 108, 111, 32, 87, 111, 114, 108, 100, 31, 133, 160] =
     [104, 101, 108, 108, 111, 32, 119, 111, 114, 108, 100]"
  "cache_key [201, 67, 79, 76, 69, 32, 32] = [233, 99, 111, 108, 101]"
  "cache_key [931, 931] = [963, 962]"
  "cache_key [65, 931, 46] = [97, 962, 46]"
  "cache_key [97, 173, 931] = [97, 173, 962]"
  "cache_key [65, 931, 39, 66] = [97, 963, 39, 98]"
  "cache_key [49, 931] = [49, 963]"
  "cache_key [215, 931] = [215, 963]"
  by code_simp+




lemma update_absent: "k \<notin> fst ` set al \<Longrightarrow> AList.update k v al = al @ [(k, v)]"
  by (induction al) auto

lemma map_of_None_keys: "map_of al k = None \<Longrightarrow> k \<notin> fst ` set al"
  by (simp add: map_of_eq_None_iff)

lemma cache_put_bound:
  assumes "0 < cache_size p" and "int (length (response_cache p)) \<le> cache_size p"
    and "distinct (map fst (response_cache p))" and "cache_get key p = None"
    and "cache_put key r p = Inr p'"
  shows "response_cache p' =
           (if int (length (response_cache p)) = cache_size p
            then tl (response_cache p) else response_cache p) @ [(key, r)] \<and>
         cache_size p' = cache_size p"
proof (cases "cache_size p \<le> int (length (response_cache p))")
  case False
  from assms(4) have "key \<notin> fst ` set (response_cache p)"
    by (simp add: cache_get_def map_of_None_keys)
  with False assms(5) show ?thesis by (auto simp: cache_put_def update_absent)
next
  case True
  with assms(1) obtain k v rest where c: "response_cache p = (k, v) # rest"
    by (cases "response_cache p") auto
  from assms(3) c have "k \<notin> fst ` set rest" by auto
  then have d: "AList.delete k ((k, v) # rest) = rest" by simp
  from assms(4) c have "key \<notin> fst ` set rest"
    by (auto simp: cache_get_def dest!: map_of_None_keys split: if_splits)
  then have u: "AList.update key r rest = rest @ [(key, r)]" by (rule update_absent)
  from True assms(2,5) show ?thesis
    unfolding cache_put_def c by (auto simp: d u simp del: delete_simps)
qed

text \<open>
  C9. Let the capacity \<^verbatim>\<open>_cache_size\<close> of a response cache be positive (it is 100 by
  default) and let the cache hold no more entries than that. Then after a call of
  \<^verbatim>\<open>query_document\<close> that returns, it still holds no more. A hit leaves the cache as it
  is. A miss on a full cache removes exactly the first entry in insertion order and then
  appends the new one, so the number of entries stays at the capacity; a miss on a cache
  that is not full appends only.
\<close>

theorem response_cache_bounded:
  assumes "0 < cache_size p" and "int (length (response_cache p)) \<le> cache_size p"
    and "distinct (map fst (response_cache p))"
    and "query_document q e t0 t1 p = Inr (r, p')"
  shows "int (length (response_cache p')) \<le> cache_size p' \<and>
         cache_size p' = cache_size p \<and>
         distinct (map fst (response_cache p')) \<and>
         response_cache p' =
           (if cache_get (cache_key q) p \<noteq> None then response_cache p
            else (if int (length (response_cache p)) = cache_size p
                  then tl (response_cache p) else response_cache p) @ [(cache_key q, r)])"
proof (cases "cache_get (cache_key q) p")
  case (Some cached)
  with assms show ?thesis by (auto simp: query_document_def split: if_splits)
next
  case None
  with assms(4) have put: "cache_put (cache_key q) r p = Inr p'"
    by (auto simp: query_document_def Let_def split: if_splits sum.splits option.splits)
  from cache_put_bound [OF assms(1,2,3) None put]
  have c: "response_cache p' =
      (if int (length (response_cache p)) = cache_size p
       then tl (response_cache p) else response_cache p) @ [(cache_key q, r)]"
    and m: "cache_size p' = cache_size p"
    by simp_all
  from None have nk: "cache_key q \<notin> fst ` set (response_cache p)"
    by (simp add: cache_get_def map_of_None_keys)
  have sub: "set (tl (response_cache p)) \<subseteq> set (response_cache p)"
    by (cases "response_cache p") auto
  have dt: "distinct (map fst (tl (response_cache p)))"
    using assms(3) by (cases "response_cache p") auto
  have d: "distinct (map fst (response_cache p'))"
    using assms(3) nk sub dt by (auto simp: c)
  have l: "int (length (response_cache p')) \<le> cache_size p'"
    using assms(1,2) by (auto simp: c m)
  from c m d l None show ?thesis by simp
qed

lemma full_processor_keys:
  "map fst (response_cache full_processor) =
     map (\<lambda>i. [48 + i div 10, 48 + i mod 10]) [0..<100]"
  by (simp add: full_processor_def comp_def)

lemma full_processor_distinct: "distinct (map fst (response_cache full_processor))"
proof -
  have "inj_on (\<lambda>i::nat. [48 + i div 10, 48 + i mod 10]) {0..<100}"
  proof (rule inj_onI)
    fix i j :: nat
    assume "[48 + i div 10, 48 + i mod 10] = [48 + j div 10, 48 + j mod 10]"
    then have "i div 10 = j div 10" and "i mod 10 = j mod 10" by simp_all
    then show "i = j" by (metis div_mult_mod_eq)
  qed
  then show ?thesis
    unfolding full_processor_keys by (simp add: distinct_map)
qed

theorem response_cache_bounded_witness:
  "0 < cache_size full_processor \<and>
   int (length (response_cache full_processor)) \<le> cache_size full_processor \<and>
   distinct (map fst (response_cache full_processor)) \<and>
   \<not> isl (query_document (py_str ''new query'') (constant_engine (py_str ''Hi'')) 0 1 full_processor) \<and>
   length (response_cache full_processor) = 100 \<and>
   fst (hd (response_cache full_processor)) = py_str ''00'' \<and>
   length (response_cache
     (snd (projr (query_document (py_str ''new query'') (constant_engine (py_str ''Hi'')) 0 1
        full_processor)))) = 100 \<and>
   map_of (response_cache
     (snd (projr (query_document (py_str ''new query'') (constant_engine (py_str ''Hi'')) 0 1
        full_processor)))) (py_str ''00'') = None"
proof -
  let ?q = "py_str ''new query''"
  let ?X = "query_document ?q (constant_engine (py_str ''Hi'')) 0 1 full_processor"
  have h1: "0 < cache_size full_processor"
    by (simp add: full_processor_def indexed_processor_def init_processor_def)
  have len: "length (response_cache full_processor) = 100"
    by (simp add: full_processor_def)
  have sz: "cache_size full_processor = 100"
    by (simp add: full_processor_def indexed_processor_def init_processor_def)
  have idx: "index full_processor \<noteq> None"
    by (simp add: full_processor_def indexed_processor_def init_processor_def)
  have h2: "int (length (response_cache full_processor)) \<le> cache_size full_processor"
    by (simp add: len sz)
  note h3 = full_processor_distinct
  have key: "cache_key ?q = ?q" by code_simp
  have "?q \<notin> set (map fst (response_cache full_processor))"
    unfolding full_processor_keys by (auto simp: py_str_def)
  then have miss: "cache_get (cache_key ?q) full_processor = None"
    by (simp add: key cache_get_def map_of_eq_None_iff)
  obtain k v rest where c: "response_cache full_processor = (k, v) # rest"
    using len by (cases "response_cache full_processor") auto
  have "hd (response_cache full_processor) =
      ([48 + (0::nat) div 10, 48 + (0::nat) mod 10], sample_response)"
    by (simp add: full_processor_def upt_conv_Cons)
  moreover have "[48 + (0::nat) div 10, 48 + (0::nat) mod 10] = py_str ''00''"
    by code_simp
  ultimately have hd: "fst (hd (response_cache full_processor)) = py_str ''00''" by simp
  have strip: "py_strip (py_str ''Hi'') \<noteq> []" by code_simp
  have nl: "\<not> isl ?X"
    using idx miss strip
    by (simp add: query_document_def constant_engine_def cache_put_def c sz [symmetric] Let_def
        del: delete_simps)
  then have h4: "?X = Inr (fst (projr ?X), snd (projr ?X))"
    by (cases ?X) auto
  from response_cache_bounded [OF h1 h2 h3 h4]
  have c': "response_cache (snd (projr ?X)) =
      tl (response_cache full_processor) @ [(cache_key ?q, fst (projr ?X))]"
    by (simp add: miss len sz)
  have l': "length (response_cache (snd (projr ?X))) = 100"
    unfolding c' by (simp add: len)
  from hd c have k: "k = py_str ''00''" by simp
  from h3 c k have "py_str ''00'' \<notin> fst ` set rest" by auto
  then have "map_of (tl (response_cache full_processor)) (py_str ''00'') = None"
    by (simp add: c map_of_eq_None_iff)
  moreover have "?q \<noteq> py_str ''00''" by (simp add: py_str_def)
  ultimately have g: "map_of (response_cache (snd (projr ?X))) (py_str ''00'') = None"
    unfolding c' by (simp add: key map_add_def map_of_append)
  from h1 h2 h3 nl len hd l' g show ?thesis by blast
qed

section \<open>The hot cache and the durable store\<close>

lemma register_ip_hot_files:
  assumes "register_ip sid ip s = Inr s1" and "map_of (session_cache s1) k \<noteq> None"
  shows "map_of (files s1) (get_session_path k) = map_of (files s) (get_session_path k) \<and>
         map_of (files s1) (get_metadata_path k) = map_of (files s) (get_metadata_path k)"
  using assms
  by (auto simp: register_ip_def Let_def split: option.splits if_splits list.splits)

lemma write_session_files_other:
  "k \<noteq> sid \<Longrightarrow>
     map_of (files (write_session_files sid p ip t2 t3 s)) (get_session_path k) =
       map_of (files s) (get_session_path k) \<and>
     map_of (files (write_session_files sid p ip t2 t3 s)) (get_metadata_path k) =
       map_of (files s) (get_metadata_path k)"
  by (simp add: write_session_files_def update_conv')

lemma write_session_files_same:
  "map_of (files (write_session_files sid p ip t2 t3 s)) (get_session_path sid) = Some (Pickled p) \<and>
   map_of (files (write_session_files sid p ip t2 t3 s)) (get_metadata_path sid) =
     Some (MetaJson \<lparr> session_id = sid, created_at = t2, last_accessed = t3, ip_address = ip \<rparr>)"
  by (simp add: write_session_files_def update_conv')

lemma load_session_miss:
  assumes "map_of (session_cache s) k = None"
    and "map_of (files s) (get_session_path k) = Some (Pickled q)"
    and "map_of (files s) (get_metadata_path k) = Some (MetaJson m)"
  shows "fst (load_session k u1 u2 s) = (if index q = None then None else Some q)"
  using assms by (simp add: load_session_def Let_def)

lemma load_session_hit:
  "map_of (session_cache s) k = Some (q, t) \<Longrightarrow> fst (load_session k u1 u2 s) = Some q"
  by (simp add: load_session_def)

text \<open>
  C6, as amended. Let the session \<open>k\<close> have its payload file and its metadata file, be in
  the hot cache when the cache insertion of a \<^verbatim>\<open>save_session\<close> for another session starts
  (that is, after the quota step of that call), and be out of the hot cache when the
  call returns: it has been evicted by the capacity check. Then both files are what they
  were, and a following \<^verbatim>\<open>load_session(k)\<close> returns the stored payload if that payload has
  an index; a stored payload without index is refused by the validity check of
  \<^verbatim>\<open>load_session\<close>, which returns \<^verbatim>\<open>None\<close>.
\<close>

theorem hot_eviction_keeps_durable:
  assumes "register_ip sid ip s = Inr s1" and "map_of (session_cache s1) k \<noteq> None"
    and "save_session sid p ip t1 t2 t3 s = Inr s'" and "map_of (session_cache s') k = None"
    and "k \<noteq> sid"
    and "map_of (files s) (get_session_path k) = Some (Pickled q)"
    and "map_of (files s) (get_metadata_path k) = Some (MetaJson m)"
  shows "map_of (files s') (get_session_path k) = Some (Pickled q) \<and>
         map_of (files s') (get_metadata_path k) = Some (MetaJson m) \<and>
         fst (load_session k u1 u2 s') = (if index q = None then None else Some q)"
proof -
  from assms(1,3) have s': "s' = write_session_files sid p ip t2 t3 (cache_insert sid p t1 s1)"
    by (simp add: save_session_def)
  from register_ip_hot_files [OF assms(1,2)] assms(6,7)
  have f1: "map_of (files s1) (get_session_path k) = Some (Pickled q)"
    and m1: "map_of (files s1) (get_metadata_path k) = Some (MetaJson m)"
    by simp_all
  from write_session_files_other [OF assms(5), of p ip t2 t3 "cache_insert sid p t1 s1"] f1 m1
  have f': "map_of (files s') (get_session_path k) = Some (Pickled q)"
    and m': "map_of (files s') (get_metadata_path k) = Some (MetaJson m)"
    by (simp_all add: s')
  from load_session_miss [OF assms(4) f' m'] f' m' show ?thesis by simp
qed


lemma oldest_from_min:
  "\<exists>t'. t' \<le> t \<and> (\<forall>e\<in>set c. t' \<le> snd (snd e)) \<and>
      ((oldest_from k t c = k \<and> t' = t) \<or> (\<exists>p'. (oldest_from k t c, (p', t')) \<in> set c))"
proof (induction c arbitrary: k t)
  case Nil
  then show ?case by simp
next
  case (Cons e c)
  obtain k1 p1 t1 where e: "e = (k1, (p1, t1))" by (cases e) auto
  show ?case
  proof (cases "t1 < t")
    case True
    from Cons.IH [of t1 k1] obtain t' where le: "t' \<le> t1"
      and all: "\<forall>e\<in>set c. t' \<le> snd (snd e)"
      and res: "(oldest_from k1 t1 c = k1 \<and> t' = t1) \<or> (\<exists>p'. (oldest_from k1 t1 c, (p', t')) \<in> set c)"
      by blast
    from res have "\<exists>p'. (oldest_from k1 t1 c, (p', t')) \<in> set (e # c)"
      by (auto simp: e)
    with True le all show ?thesis
      by (intro exI [of _ t']) (simp add: e)
  next
    case False
    from Cons.IH [of t k] obtain t' where le: "t' \<le> t"
      and all: "\<forall>e\<in>set c. t' \<le> snd (snd e)"
      and res: "(oldest_from k t c = k \<and> t' = t) \<or> (\<exists>p'. (oldest_from k t c, (p', t')) \<in> set c)"
      by blast
    from res have "(oldest_from k t c = k \<and> t' = t) \<or> (\<exists>p'. (oldest_from k t c, (p', t')) \<in> set (e # c))"
      by auto
    with False le all show ?thesis
      by (intro exI [of _ t']) (simp add: e)
  qed
qed

lemma oldest_key_min:
  assumes "oldest_key c = Some k"
  shows "\<exists>p t. (k, (p, t)) \<in> set c \<and> (\<forall>e\<in>set c. t \<le> snd (snd e))"
proof -
  from assms obtain k0 p0 t0 rest where c: "c = (k0, (p0, t0)) # rest"
    and k: "k = oldest_from k0 t0 rest"
    by (auto simp: oldest_key_def split: list.splits)
  from oldest_from_min [of t0 rest k0] obtain t' where le: "t' \<le> t0"
    and all: "\<forall>e\<in>set rest. t' \<le> snd (snd e)"
    and res: "(oldest_from k0 t0 rest = k0 \<and> t' = t0) \<or> (\<exists>p'. (oldest_from k0 t0 rest, (p', t')) \<in> set rest)"
    by blast
  from res have "\<exists>p'. (k, (p', t')) \<in> set c"
    by (auto simp: c k)
  with le all show ?thesis by (auto simp: c)
qed

lemma oldest_key_Some: "c \<noteq> [] \<Longrightarrow> \<exists>k. oldest_key c = Some k"
  by (cases c) (auto simp: oldest_key_def)


lemma set_update_subset: "set (AList.update k v al) \<subseteq> insert (k, v) (set al)"
  by (induction al) auto

lemma cache_insert_evicts_min:
  assumes "int (length (AList.update sid (p, t) (session_cache s))) > max_cache_size s"
    and "(k, (q, tk)) \<in> set (AList.update sid (p, t) (session_cache s))"
    and "\<forall>e\<in>set (AList.update sid (p, t) (session_cache s)). fst e \<noteq> k \<longrightarrow> tk < snd (snd e)"
  shows "map_of (session_cache (cache_insert sid p t s)) k = None"
proof -
  let ?c = "AList.update sid (p, t) (session_cache s)"
  obtain k' where o: "oldest_key ?c = Some k'"
    using oldest_key_Some [of ?c] by auto
  from oldest_key_min [OF o] obtain p' t' where
    m: "(k', (p', t')) \<in> set ?c" and le: "\<forall>e\<in>set ?c. t' \<le> snd (snd e)"
    by blast
  have "k' = k"
  proof (rule ccontr)
    assume "k' \<noteq> k"
    with assms(3) m have "tk < t'" by force
    moreover from le assms(2) have "t' \<le> tk" by force
    ultimately show False by simp
  qed
  with assms(1) o show ?thesis by (simp add: cache_insert_def)
qed

lemma cache_insert_keeps_newest:
  assumes "distinct (map fst (session_cache s))" and "0 < max_cache_size s"
    and "\<forall>e\<in>set (session_cache s). snd (snd e) < t"
  shows "map_of (session_cache (cache_insert sid p t s)) sid = Some (p, t)"
proof -
  let ?c = "AList.update sid (p, t) (session_cache s)"
  have d: "distinct (map fst ?c)" using assms(1) by (simp add: distinct_update)
  have here: "map_of ?c sid = Some (p, t)" by (simp add: update_conv')
  show ?thesis
  proof (cases "int (length ?c) > max_cache_size s")
    case False
    with here show ?thesis by (simp add: cache_insert_def)
  next
    case True
    with assms(2) obtain e1 e2 rest where c: "?c = e1 # e2 # rest"
      by (cases ?c; cases "tl ?c") auto
    from d c have "fst e1 \<noteq> fst e2" by auto
    then obtain e where e: "e \<in> set ?c" and ne: "fst e \<noteq> sid"
      using c by (metis list.set_intros(1) list.set_intros(2))
    from e ne set_update_subset [of sid "(p, t)" "session_cache s"]
    have "e \<in> set (session_cache s)" by (cases e) auto
    with assms(3) have old: "snd (snd e) < t" by simp
    obtain k where o: "oldest_key ?c = Some k"
      using oldest_key_Some [of ?c] by auto
    from oldest_key_min [OF o] obtain p' t' where
      m: "(k, (p', t')) \<in> set ?c" and le: "\<forall>e\<in>set ?c. t' \<le> snd (snd e)"
      by blast
    have "k \<noteq> sid"
    proof
      assume "k = sid"
      with m d here have "(p', t') = (p, t)" by (simp add: map_of_eq_Some_iff)
      with le e old show False by force
    qed
    with True o here show ?thesis by (simp add: cache_insert_def)
  qed
qed

lemma save_session_None:
  "save_session sid p None t1 t2 t3 s =
     Inr (write_session_files sid p None t2 t3 (cache_insert sid p t1 s))"
  by (simp add: save_session_def register_ip_def)

lemma cache_insert_room:
  assumes "sid \<notin> fst ` set (session_cache s)"
    and "int (length (session_cache s)) < max_cache_size s"
  shows "session_cache (cache_insert sid p t s) = session_cache s @ [(sid, (p, t))]"
  using assms by (simp add: cache_insert_def update_absent)

lemma save_sessions_cache_append:
  assumes "int (length (session_cache s)) + int (length calls) \<le> max_cache_size s"
    and "distinct (map fst calls)"
    and "fst ` set (session_cache s) \<inter> set (map fst calls) = {}"
  shows "\<exists>s'. save_sessions None calls s = Inr s' \<and>
           session_cache s' =
             session_cache s @ map (\<lambda>(sid, p, t1, t2, t3). (sid, (p, t1))) calls \<and>
           max_cache_size s' = max_cache_size s"
  using assms
proof (induction calls arbitrary: s)
  case Nil
  then show ?case by simp
next
  case (Cons call calls)
  obtain sid p t1 t2 t3 where call: "call = (sid, p, t1, t2, t3)"
    by (cases call) auto
  let ?s1 = "write_session_files sid p None t2 t3 (cache_insert sid p t1 s)"
  have new: "sid \<notin> fst ` set (session_cache s)" using Cons.prems(3) by (auto simp: call)
  have room: "int (length (session_cache s)) < max_cache_size s" using Cons.prems(1) by simp
  have c1: "session_cache (cache_insert sid p t1 s) = session_cache s @ [(sid, (p, t1))]"
    by (rule cache_insert_room [OF new room])
  have a: "int (length (session_cache ?s1)) + int (length calls) \<le> max_cache_size ?s1"
    using Cons.prems(1) by (simp add: c1)
  have b: "distinct (map fst calls)" using Cons.prems(2) by simp
  have c: "fst ` set (session_cache ?s1) \<inter> set (map fst calls) = {}"
    using Cons.prems(2,3) by (auto simp: c1 call)
  from Cons.IH [OF a b c] show ?case
    by (auto simp: call save_session_None c1)
qed

lemma save_sessions_None_files:
  assumes "save_sessions None calls s = Inr s'" and "k \<notin> set (map fst calls)"
  shows "map_of (files s') (get_session_path k) = map_of (files s) (get_session_path k) \<and>
         map_of (files s') (get_metadata_path k) = map_of (files s) (get_metadata_path k)"
  using assms
proof (induction calls arbitrary: s)
  case Nil
  then show ?case by simp
next
  case (Cons call calls)
  obtain sid p t1 t2 t3 where call: "call = (sid, p, t1, t2, t3)"
    by (cases call) auto
  let ?s1 = "write_session_files sid p None t2 t3 (cache_insert sid p t1 s)"
  from Cons.prems(1) have run: "save_sessions None calls ?s1 = Inr s'"
    by (simp add: call save_session_None)
  from Cons.prems(2) have ne: "k \<noteq> sid" and rest: "k \<notin> set (map fst calls)"
    by (auto simp: call)
  from Cons.IH [OF run rest] write_session_files_other [OF ne, of p None t2 t3 "cache_insert sid p t1 s"]
  show ?case by simp
qed

lemma fill_ids: "map fst (fill n t) = map (\<lambda>i. [char_of (48 + i)]) [0..<n]"
  by (simp add: fill_def comp_def)

lemma fill_length [simp]: "length (fill n t) = n"
  by (simp add: fill_def)

lemma fill_distinct: "n \<le> 200 \<Longrightarrow> distinct (map fst (fill n t))"
proof -
  assume n: "n \<le> 200"
  have "inj_on (\<lambda>i::nat. [char_of (48 + i) :: char]) {0..<n}"
  proof (rule inj_onI)
    fix i j :: nat
    assume i: "i \<in> {0..<n}" and j: "j \<in> {0..<n}"
      and e: "[char_of (48 + i) :: char] = [char_of (48 + j)]"
    from i j n have r: "48 + i \<in> {0..<256}" "48 + j \<in> {0..<256}" by auto
    from e have "(char_of (48 + i) :: char) = char_of (48 + j)" by simp
    from inj_onD [OF inj_on_char_of_nat this r] show "i = j" by simp
  qed
  then show ?thesis unfolding fill_ids by (simp add: distinct_map)
qed

lemma fill_no_long_id: "1 < length k \<Longrightarrow> k \<notin> set (map fst (fill n t))"
  unfolding fill_ids by auto

lemma fill_entries:
  "map (\<lambda>(sid, p, t1, t2, t3). (sid, (p, t1))) (fill n t) =
     map (\<lambda>i. ([char_of (48 + i)], (indexed_processor, t))) [0..<n]"
  by (simp add: fill_def comp_def)


lemma default_store_simps [simp]:
  "max_sessions_per_ip default_store = 5" "ip_sessions default_store = []"
  "session_cache default_store = []" "files default_store = []"
  "max_cache_size default_store = 50" "session_timeout default_store = 86400"
  by (simp_all add: default_store_def init_store_def)

lemma warm_store_run:
  "save_sessions None ((''doc'', q, t0, t0, t0) # fill 49 t) default_store = Inr (warm_store q t0 t) \<and>
   session_cache (warm_store q t0 t) =
     (''doc'', (q, t0)) # map (\<lambda>i. ([char_of (48 + i)], (indexed_processor, t))) [0..<49] \<and>
   max_cache_size (warm_store q t0 t) = 50"
proof -
  let ?calls = "(''doc'', q, t0, t0, t0) # fill 49 t"
  have a: "int (length (session_cache default_store)) + int (length ?calls) \<le> max_cache_size default_store"
    by simp
  have b: "distinct (map fst ?calls)"
    using fill_distinct [of 49 t] fill_no_long_id [of "''doc''" 49 t] by simp
  have c: "fst ` set (session_cache default_store) \<inter> set (map fst ?calls) = {}" by simp
  from save_sessions_cache_append [OF a b c] obtain s' where
    run: "save_sessions None ?calls default_store = Inr s'"
    and cache: "session_cache s' =
      session_cache default_store @ map (\<lambda>(sid, p, t1, t2, t3). (sid, (p, t1))) ?calls"
    and m: "max_cache_size s' = max_cache_size default_store"
    by blast
  from run have w: "warm_store q t0 t = s'" by (simp add: warm_store_def)
  from run cache m show ?thesis
    unfolding w by (simp add: fill_entries del: save_sessions.simps)
qed

lemma warm_store_files:
  "map_of (files (warm_store q t0 t)) (get_session_path ''doc'') = Some (Pickled q) \<and>
   map_of (files (warm_store q t0 t)) (get_metadata_path ''doc'') =
     Some (MetaJson \<lparr> session_id = ''doc'', created_at = t0, last_accessed = t0, ip_address = None \<rparr>)"
proof -
  let ?s1 = "write_session_files ''doc'' q None t0 t0 (cache_insert ''doc'' q t0 default_store)"
  from warm_store_run [of q t0 t]
  have run: "save_sessions None (fill 49 t) ?s1 = Inr (warm_store q t0 t)"
    by (simp add: save_session_None)
  from save_sessions_None_files [OF run fill_no_long_id [of "''doc''" 49 t]]
    write_session_files_same [of "''doc''" q None t0 t0 "cache_insert ''doc'' q t0 default_store"]
  show ?thesis by simp
qed

lemma warm_store_keys: "''new'' \<notin> fst ` set (session_cache (warm_store q t0 t))"
  by (auto simp: warm_store_run)

lemma warm_store_update:
  "AList.update ''new'' (p, u) (session_cache (warm_store q t0 t)) =
     (''doc'', (q, t0)) # map (\<lambda>i. ([char_of (48 + i)], (indexed_processor, t))) [0..<49] @
     [(''new'', (p, u))]"
  using update_absent [OF warm_store_keys, of "(p, u)" q t0 t] by (simp add: warm_store_run)

text \<open>A 51st session, saved later than all others, evicts the oldest one.\<close>

lemma warm_store_evicts_doc:
  assumes "t0 < t" and "t0 < u"
  shows "session_cache (cache_insert ''new'' p u (warm_store q t0 t)) =
           map (\<lambda>i. ([char_of (48 + i)], (indexed_processor, t))) [0..<49] @ [(''new'', (p, u))]"
proof -
  let ?w = "warm_store q t0 t"
  let ?c = "AList.update ''new'' (p, u) (session_cache ?w)"
  have len: "int (length ?c) > max_cache_size ?w"
    by (simp add: warm_store_update) (simp add: warm_store_run)
  obtain k where o: "oldest_key ?c = Some k"
    using oldest_key_Some [of ?c] by auto
  from oldest_key_min [OF o] obtain p' t' where
    m: "(k, (p', t')) \<in> set ?c" and le: "\<forall>e\<in>set ?c. t' \<le> snd (snd e)"
    by blast
  from le have "t' \<le> t0" by (simp add: warm_store_update)
  with m assms have k: "k = ''doc''" by (auto simp: warm_store_update)
  have "AList.delete ''doc'' ?c =
      map (\<lambda>i. ([char_of (48 + i)], (indexed_processor, t))) [0..<49] @ [(''new'', (p, u))]"
    unfolding warm_store_update by (simp add: AList.delete_eq filter_id_conv)
  with len o k show ?thesis by (simp add: cache_insert_def)
qed

text \<open>A 51st session, saved with a clock reading before all others, is evicted itself.\<close>

lemma warm_store_evicts_new:
  assumes "u < t0" and "u < t"
  shows "session_cache (cache_insert ''new'' p u (warm_store q t0 t)) =
           session_cache (warm_store q t0 t)"
proof -
  let ?w = "warm_store q t0 t"
  let ?c = "AList.update ''new'' (p, u) (session_cache ?w)"
  have len: "int (length ?c) > max_cache_size ?w"
    by (simp add: warm_store_update) (simp add: warm_store_run)
  obtain k where o: "oldest_key ?c = Some k"
    using oldest_key_Some [of ?c] by auto
  from oldest_key_min [OF o] obtain p' t' where
    m: "(k, (p', t')) \<in> set ?c" and le: "\<forall>e\<in>set ?c. t' \<le> snd (snd e)"
    by blast
  from le have "t' \<le> u" by (simp add: warm_store_update)
  with m assms have k: "k = ''new''" by (auto simp: warm_store_update)
  have "AList.delete ''new'' ?c = session_cache ?w"
    using warm_store_keys [of q t0 t] by (simp add: delete_update_same)
  with len o k show ?thesis by (simp add: cache_insert_def)
qed


lemma map_of_fill_entries_long:
  assumes "1 < length k"
  shows "map_of (map (\<lambda>i. ([char_of (48 + i)], (indexed_processor, t))) [0..<n] @ [(''new'', v)]) k =
           (if k = ''new'' then Some v else None)"
proof -
  let ?xs = "map (\<lambda>i. ([char_of (48 + i)], (indexed_processor, t))) [0..<n]"
  from assms have "k \<notin> fst ` set ?xs" by auto
  then have "map_of ?xs k = None" by (simp add: map_of_eq_None_iff)
  then show ?thesis by (simp add: map_of_append map_add_def)
qed

lemma warm_store_then_save:
  assumes "t0 < t" and "t0 < u"
  shows "\<exists>s'. save_session ''new'' p None u u u (warm_store q t0 t) = Inr s' \<and>
           map_of (session_cache s') ''doc'' = None \<and>
           length (session_cache s') = 50 \<and>
           max_cache_size s' = 50 \<and>
           map_of (files s') (get_session_path ''doc'') = Some (Pickled q) \<and>
           map_of (files s') (get_metadata_path ''doc'') =
             Some (MetaJson \<lparr> session_id = ''doc'', created_at = t0, last_accessed = t0,
                              ip_address = None \<rparr>)"
proof -
  let ?c = "cache_insert ''new'' p u (warm_store q t0 t)"
  let ?s' = "write_session_files ''new'' p None u u ?c"
  have ne: "''doc'' \<noteq> ''new''" by simp
  have run: "save_session ''new'' p None u u u (warm_store q t0 t) = Inr ?s'"
    by (rule save_session_None)
  have cache: "session_cache ?s' =
      map (\<lambda>i. ([char_of (48 + i)], (indexed_processor, t))) [0..<49] @ [(''new'', (p, u))]"
    by (simp add: warm_store_evicts_doc [OF assms])
  have miss: "map_of (session_cache ?s') ''doc'' = None"
    unfolding cache using map_of_fill_entries_long [of "''doc''" t 49 "(p, u)"] by simp
  have len: "length (session_cache ?s') = 50"
    unfolding cache by simp
  have m: "max_cache_size ?s' = 50" by (simp add: warm_store_run)
  from write_session_files_other [OF ne, of p None u u ?c] warm_store_files [of q t0 t]
  have f: "map_of (files ?s') (get_session_path ''doc'') = Some (Pickled q)"
    and g: "map_of (files ?s') (get_metadata_path ''doc'') =
      Some (MetaJson \<lparr> session_id = ''doc'', created_at = t0, last_accessed = t0,
                       ip_address = None \<rparr>)"
    by simp_all
  from run miss len m f g show ?thesis by blast
qed

text \<open>
  C6 as stated fails for a payload without index. The session \<^verbatim>\<open>doc\<close> is saved with such
  a payload and is in the hot cache; 49 further saves fill the cache and the 51st session
  \<^verbatim>\<open>new\<close> evicts \<^verbatim>\<open>doc\<close>. Its payload file is still there, unchanged, but
  \<^verbatim>\<open>load_session("doc")\<close> returns \<^verbatim>\<open>None\<close>.
\<close>

theorem evicted_payload_without_index_not_loaded:
  "map_of (session_cache (warm_store bare_processor 0 1)) ''doc'' = Some (bare_processor, 0) \<and>
   map_of (session_cache
     (projr (save_session ''new'' indexed_processor None 2 2 2 (warm_store bare_processor 0 1))))
     ''doc'' = None \<and>
   map_of (files
     (projr (save_session ''new'' indexed_processor None 2 2 2 (warm_store bare_processor 0 1))))
     (get_session_path ''doc'') = Some (Pickled bare_processor) \<and>
   fst (load_session ''doc'' 3 3
     (projr (save_session ''new'' indexed_processor None 2 2 2 (warm_store bare_processor 0 1)))) =
   None"
proof -
  have t: "(0::int) < 1" "(0::int) < 2" by simp_all
  from warm_store_then_save [OF t, of indexed_processor bare_processor] obtain s' where
    run: "save_session ''new'' indexed_processor None 2 2 2 (warm_store bare_processor 0 1) = Inr s'"
    and miss: "map_of (session_cache s') ''doc'' = None"
    and f: "map_of (files s') (get_session_path ''doc'') = Some (Pickled bare_processor)"
    and g: "map_of (files s') (get_metadata_path ''doc'') =
      Some (MetaJson \<lparr> session_id = ''doc'', created_at = 0, last_accessed = 0, ip_address = None \<rparr>)"
    by blast
  have i: "index bare_processor = None" by (simp add: bare_processor_def init_processor_def)
  have l: "fst (load_session ''doc'' 3 3 s') = None"
    using load_session_miss [OF miss f g, of 3 3] i by simp
  have hot: "map_of (session_cache (warm_store bare_processor 0 1)) ''doc'' = Some (bare_processor, 0)"
    by (simp add: warm_store_run)
  from hot miss f l show ?thesis unfolding run by simp
qed

theorem hot_eviction_keeps_durable_witness:
  "register_ip ''new'' None (warm_store indexed_processor 0 1) = Inr (warm_store indexed_processor 0 1) \<and>
   map_of (session_cache (warm_store indexed_processor 0 1)) ''doc'' = Some (indexed_processor, 0) \<and>
   \<not> isl (save_session ''new'' indexed_processor None 2 2 2 (warm_store indexed_processor 0 1)) \<and>
   map_of (session_cache
     (projr (save_session ''new'' indexed_processor None 2 2 2 (warm_store indexed_processor 0 1))))
     ''doc'' = None \<and>
   map_of (files (warm_store indexed_processor 0 1)) (get_session_path ''doc'') =
     Some (Pickled indexed_processor) \<and>
   map_of (files
     (projr (save_session ''new'' indexed_processor None 2 2 2 (warm_store indexed_processor 0 1))))
     (get_session_path ''doc'') = Some (Pickled indexed_processor) \<and>
   fst (load_session ''doc'' 3 3
     (projr (save_session ''new'' indexed_processor None 2 2 2 (warm_store indexed_processor 0 1)))) =
   Some indexed_processor"
proof -
  let ?w = "warm_store indexed_processor 0 1"
  have t: "(0::int) < 1" "(0::int) < 2" by simp_all
  from warm_store_then_save [OF t, of indexed_processor indexed_processor] obtain s' where
    h3: "save_session ''new'' indexed_processor None 2 2 2 ?w = Inr s'"
    and h4: "map_of (session_cache s') ''doc'' = None"
    by blast
  have h1: "register_ip ''new'' None ?w = Inr ?w" by (simp add: register_ip_def)
  have hot: "map_of (session_cache ?w) ''doc'' = Some (indexed_processor, 0)"
    by (simp add: warm_store_run)
  then have h2: "map_of (session_cache ?w) ''doc'' \<noteq> None" by simp
  have h5: "''doc'' \<noteq> ''new''" by simp
  have i: "index indexed_processor \<noteq> None"
    by (simp add: indexed_processor_def init_processor_def)
  note f = warm_store_files [of indexed_processor 0 1]
  from f have h6: "map_of (files ?w) (get_session_path ''doc'') = Some (Pickled indexed_processor)"
    and h7: "map_of (files ?w) (get_metadata_path ''doc'') =
      Some (MetaJson \<lparr> session_id = ''doc'', created_at = 0, last_accessed = 0, ip_address = None \<rparr>)"
    by simp_all
  from hot_eviction_keeps_durable [OF h1 h2 h3 h4 h5 h6 h7, of 3 3] i
  have "map_of (files s') (get_session_path ''doc'') = Some (Pickled indexed_processor) \<and>
        fst (load_session ''doc'' 3 3 s') = Some indexed_processor"
    by simp
  with h1 hot h4 h6 show ?thesis unfolding h3 by simp
qed

text \<open>
  C5, at the failing input. On the default store (capacity 50) the session \<^verbatim>\<open>doc\<close> is
  saved, 49 further saves fill the hot cache, and the 51st save evicts \<^verbatim>\<open>doc\<close>, the entry
  with the least timestamp: the cache holds 50 entries. Then \<^verbatim>\<open>load_session("doc")\<close> reads
  the session from disk and puts it into the cache without any eviction: the cache holds
  51 entries, one more than its capacity.
\<close>

theorem load_overflows_hot_cache:
  "length (session_cache
     (projr (save_session ''new'' indexed_processor None 2 2 2 (warm_store indexed_processor 0 1)))) = 50 \<and>
   fst (load_session ''doc'' 3 3
     (projr (save_session ''new'' indexed_processor None 2 2 2 (warm_store indexed_processor 0 1)))) =
     Some indexed_processor \<and>
   length (session_cache (snd (load_session ''doc'' 3 3
     (projr (save_session ''new'' indexed_processor None 2 2 2 (warm_store indexed_processor 0 1)))))) = 51 \<and>
   max_cache_size (snd (load_session ''doc'' 3 3
     (projr (save_session ''new'' indexed_processor None 2 2 2 (warm_store indexed_processor 0 1))))) = 50"
proof -
  have t: "(0::int) < 1" "(0::int) < 2" by simp_all
  from warm_store_then_save [OF t, of indexed_processor indexed_processor] obtain s' where
    run: "save_session ''new'' indexed_processor None 2 2 2 (warm_store indexed_processor 0 1) = Inr s'"
    and miss: "map_of (session_cache s') ''doc'' = None"
    and len: "length (session_cache s') = 50"
    and m: "max_cache_size s' = 50"
    and f: "map_of (files s') (get_session_path ''doc'') = Some (Pickled indexed_processor)"
    and g: "map_of (files s') (get_metadata_path ''doc'') =
      Some (MetaJson \<lparr> session_id = ''doc'', created_at = 0, last_accessed = 0, ip_address = None \<rparr>)"
    by blast
  have i: "index indexed_processor \<noteq> None"
    by (simp add: indexed_processor_def init_processor_def)
  from miss have new: "''doc'' \<notin> fst ` set (session_cache s')"
    by (simp add: map_of_eq_None_iff)
  have l: "load_session ''doc'' 3 3 s' =
      (Some indexed_processor,
       s'\<lparr> session_cache := session_cache s' @ [(''doc'', (indexed_processor, 3))],
            files := AList.update (get_metadata_path ''doc'')
              (MetaJson \<lparr> session_id = ''doc'', created_at = 0, last_accessed = 3, ip_address = None \<rparr>)
              (files s') \<rparr>)"
    using miss f g i by (simp add: load_session_def Let_def update_absent [OF new])
  show ?thesis unfolding run using len m by (simp add: l)
qed

section \<open>Saving and loading\<close>

lemma cache_insert_lookup_self:
  "map_of (session_cache (cache_insert sid p t s)) sid = None \<or>
   map_of (session_cache (cache_insert sid p t s)) sid = Some (p, t)"
  by (simp add: cache_insert_def Let_def update_conv' delete_conv' split: option.splits)

lemma set_delete_subset: "set (AList.delete k al) \<subseteq> set al"
  by (auto simp: AList.delete_eq)

lemma register_ip_cache:
  assumes "register_ip sid ip s = Inr s1"
  shows "set (session_cache s1) \<subseteq> set (session_cache s) \<and>
         (distinct (map fst (session_cache s)) \<longrightarrow> distinct (map fst (session_cache s1))) \<and>
         max_cache_size s1 = max_cache_size s"
proof -
  have sub: "x \<in> set (AList.delete k al) \<Longrightarrow> x \<in> set al" for x :: "'a \<times> 'b" and k al
    using set_delete_subset [of k al] by auto
  from assms show ?thesis
    by (auto simp: register_ip_def delete_session_eq Let_def distinct_delete
        split: option.splits if_splits list.splits dest: sub)
qed

lemma own_eviction_iff:
  "map_of (session_cache (cache_insert sid p t s)) sid = None \<longleftrightarrow> evicts_own_entry sid p t s"
proof -
  let ?c = "AList.update sid (p, t) (session_cache s)"
  have here: "map_of ?c sid = Some (p, t)" by (simp add: update_conv')
  show ?thesis
  proof (cases "int (length ?c) > max_cache_size s")
    case False
    with here show ?thesis by (simp add: cache_insert_def evicts_own_entry_def)
  next
    case True
    obtain k where o: "oldest_key ?c = Some k"
      using oldest_key_Some [of ?c] by auto
    from True o here show ?thesis
      by (cases "k = sid") (simp_all add: cache_insert_def evicts_own_entry_def)
  qed
qed

text \<open>Two cases in which the save keeps its own entry: there is room in the cache, or the
  clock reading of the save is later than every timestamp in the cache.\<close>

lemma no_own_eviction_room:
  "int (length (AList.update sid (p, t) (session_cache s))) \<le> max_cache_size s \<Longrightarrow>
     \<not> evicts_own_entry sid p t s"
  by (simp add: evicts_own_entry_def)

lemma no_own_eviction_newest:
  assumes "distinct (map fst (session_cache s))" and "0 < max_cache_size s"
    and "\<forall>e\<in>set (session_cache s). snd (snd e) < t"
  shows "\<not> evicts_own_entry sid p t s"
  using cache_insert_keeps_newest [OF assms, of sid p] own_eviction_iff [of sid p t s] by simp

text \<open>
  C7, as amended. When \<^verbatim>\<open>save_session(id, payload)\<close> returns, an immediately following
  \<^verbatim>\<open>load_session(id)\<close> returns the same payload, with one exception: the payload has no
  index and the capacity check of the save itself has evicted the entry just written
  (after the insertion the hot cache is larger than its capacity and the new entry is the
  first one with the least timestamp). In that case, and only in that case,
  \<^verbatim>\<open>load_session\<close> returns \<^verbatim>\<open>None\<close>. The entry is out of the hot cache after the save
  exactly when the save has evicted it in this way.
\<close>

theorem save_then_load_roundtrip:
  assumes "save_session sid p ip t1 t2 t3 s = Inr s'"
  shows "(map_of (session_cache s') sid = None \<longleftrightarrow>
            evicts_own_entry sid p t1 (projr (register_ip sid ip s))) \<and>
         fst (load_session sid u1 u2 s') =
           (if index p = None \<and> evicts_own_entry sid p t1 (projr (register_ip sid ip s))
            then None else Some p)"
proof -
  from assms obtain s1 where r: "register_ip sid ip s = Inr s1"
    and s': "s' = write_session_files sid p ip t2 t3 (cache_insert sid p t1 s1)"
    by (auto simp: save_session_def split: sum.splits)
  have c': "session_cache s' = session_cache (cache_insert sid p t1 s1)"
    by (simp add: s')
  from own_eviction_iff [of sid p t1 s1]
  have ev: "map_of (session_cache s') sid = None \<longleftrightarrow> evicts_own_entry sid p t1 s1"
    by (simp add: c')
  note f = write_session_files_same [of sid p ip t2 t3 "cache_insert sid p t1 s1"]
  have l: "fst (load_session sid u1 u2 s') =
      (if index p = None \<and> evicts_own_entry sid p t1 s1 then None else Some p)"
  proof (cases "evicts_own_entry sid p t1 s1")
    case True
    with ev have miss: "map_of (session_cache s') sid = None" by simp
    from f have "map_of (files s') (get_session_path sid) = Some (Pickled p)"
      and "map_of (files s') (get_metadata_path sid) =
        Some (MetaJson \<lparr> session_id = sid, created_at = t2, last_accessed = t3, ip_address = ip \<rparr>)"
      by (simp_all add: s')
    from load_session_miss [OF miss this] True show ?thesis by simp
  next
    case False
    with ev cache_insert_lookup_self [of sid p t1 s1]
    have "map_of (session_cache s') sid = Some (p, t1)" by (auto simp: c')
    from load_session_hit [OF this] False show ?thesis by simp
  qed
  from ev l show ?thesis by (simp add: r)
qed

theorem save_then_load_roundtrip_witness:
  "\<not> isl (save_session ''s1'' bare_processor None 5 5 5
      (projr (save_session ''a'' indexed_processor None 5 5 5 default_store))) \<and>
   \<not> evicts_own_entry ''s1'' bare_processor 5
      (projr (save_session ''a'' indexed_processor None 5 5 5 default_store)) \<and>
   fst (load_session ''s1'' 5 5
     (projr (save_session ''s1'' bare_processor None 5 5 5
       (projr (save_session ''a'' indexed_processor None 5 5 5 default_store))))) =
     Some bare_processor \<and>
   \<not> isl (save_session ''new'' indexed_processor None 50 50 50 (warm_store indexed_processor 100 100)) \<and>
   evicts_own_entry ''new'' indexed_processor 50 (warm_store indexed_processor 100 100) \<and>
   map_of (session_cache
     (projr (save_session ''new'' indexed_processor None 50 50 50 (warm_store indexed_processor 100 100))))
     ''new'' = None \<and>
   fst (load_session ''new'' 51 51
     (projr (save_session ''new'' indexed_processor None 50 50 50 (warm_store indexed_processor 100 100)))) =
     Some indexed_processor"
proof -
  let ?s0 = "projr (save_session ''a'' indexed_processor None 5 5 5 default_store)"
  let ?w = "warm_store indexed_processor 100 100"
  have ib: "index bare_processor = None" by (simp add: bare_processor_def init_processor_def)
  have ii: "index indexed_processor \<noteq> None"
    by (simp add: indexed_processor_def init_processor_def)
  have r0: "projr (register_ip ''s1'' None ?s0) = ?s0" by (simp add: register_ip_def)
  have rw: "projr (register_ip ''new'' None ?w) = ?w" by (simp add: register_ip_def)
  have h1: "save_session ''s1'' bare_processor None 5 5 5 ?s0 =
      Inr (projr (save_session ''s1'' bare_processor None 5 5 5 ?s0))"
    by (simp add: save_session_None)
  have room: "\<not> evicts_own_entry ''s1'' bare_processor 5 ?s0"
    by (rule no_own_eviction_room)
       (simp add: save_session_None cache_insert_def default_store_def init_store_def)
  from save_then_load_roundtrip [OF h1, of 5 5] room
  have l1: "fst (load_session ''s1'' 5 5 (projr (save_session ''s1'' bare_processor None 5 5 5 ?s0))) =
      Some bare_processor"
    by (simp add: r0)
  have h2: "save_session ''new'' indexed_processor None 50 50 50 ?w =
      Inr (projr (save_session ''new'' indexed_processor None 50 50 50 ?w))"
    by (simp add: save_session_None)
  have t: "(50::int) < 100" by simp
  have "session_cache (projr (save_session ''new'' indexed_processor None 50 50 50 ?w)) =
      session_cache ?w"
    by (simp add: save_session_None warm_store_evicts_new [OF t t])
  with warm_store_keys [of indexed_processor 100 100]
  have miss: "map_of (session_cache (projr (save_session ''new'' indexed_processor None 50 50 50 ?w)))
      ''new'' = None"
    by (simp add: map_of_eq_None_iff)
  from save_then_load_roundtrip [OF h2, of 51 51] miss ii
  have ev: "evicts_own_entry ''new'' indexed_processor 50 ?w"
    and l2: "fst (load_session ''new'' 51 51
      (projr (save_session ''new'' indexed_processor None 50 50 50 ?w))) = Some indexed_processor"
    by (simp_all add: rw)
  from room l1 ev miss l2 show ?thesis by (simp add: save_session_None)
qed

text \<open>
  C7 as stated fails. The hot cache of the default store is full of sessions saved at
  clock reading 100. A payload without index is saved as \<^verbatim>\<open>new\<close> when the clock reads 50
  (the wall clock has been set back): the new entry has the least timestamp and is the
  one the save evicts. The load that follows misses the cache, reads the payload file and
  refuses the payload for its missing index: it returns \<^verbatim>\<open>None\<close>.
\<close>

theorem save_then_load_returns_None:
  "\<not> isl (save_session ''new'' bare_processor None 50 50 50 (warm_store indexed_processor 100 100)) \<and>
   map_of (files
     (projr (save_session ''new'' bare_processor None 50 50 50 (warm_store indexed_processor 100 100))))
     (get_session_path ''new'') = Some (Pickled bare_processor) \<and>
   fst (load_session ''new'' 51 51
     (projr (save_session ''new'' bare_processor None 50 50 50 (warm_store indexed_processor 100 100)))) =
   None"
proof -
  let ?w = "warm_store indexed_processor 100 100"
  let ?s' = "write_session_files ''new'' bare_processor None 50 50 (cache_insert ''new'' bare_processor 50 ?w)"
  have t: "(50::int) < 100" by simp
  have run: "save_session ''new'' bare_processor None 50 50 50 ?w = Inr ?s'"
    by (rule save_session_None)
  have "session_cache ?s' = session_cache ?w"
    by (simp add: warm_store_evicts_new [OF t t])
  with warm_store_keys [of indexed_processor 100 100]
  have miss: "map_of (session_cache ?s') ''new'' = None"
    by (simp add: map_of_eq_None_iff)
  note f = write_session_files_same [of "''new''" bare_processor None 50 50
      "cache_insert ''new'' bare_processor 50 ?w"]
  from f have pk: "map_of (files ?s') (get_session_path ''new'') = Some (Pickled bare_processor)"
    and mt: "map_of (files ?s') (get_metadata_path ''new'') =
      Some (MetaJson \<lparr> session_id = ''new'', created_at = 50, last_accessed = 50, ip_address = None \<rparr>)"
    by simp_all
  have i: "index bare_processor = None" by (simp add: bare_processor_def init_processor_def)
  from load_session_miss [OF miss pk mt, of 51 51] i
  have l: "fst (load_session ''new'' 51 51 ?s') = None" by simp
  from pk l show ?thesis unfolding run by simp
qed


section \<open>What else the hot cache does on a save\<close>

lemma length_delete_present:
  "distinct (map fst c) \<Longrightarrow> (k, v) \<in> set c \<Longrightarrow> Suc (length (AList.delete k c)) = length c"
proof (induction c)
  case Nil
  then show ?case by simp
next
  case (Cons e c)
  then show ?case by (cases e) (auto simp: rev_image_eqI)
qed

lemma length_update_le: "length (AList.update k v al) \<le> Suc (length al)"
  by (induction al) auto

text \<open>What \<^verbatim>\<open>save_session\<close> itself does to the hot cache: a cache within its capacity stays
  within it, and the entry that goes is one with the least timestamp.\<close>

lemma cache_insert_bound:
  assumes "distinct (map fst (session_cache s))"
    and "int (length (session_cache s)) \<le> max_cache_size s"
  shows "int (length (session_cache (cache_insert sid p t s))) \<le> max_cache_size s"
proof -
  let ?c = "AList.update sid (p, t) (session_cache s)"
  have d: "distinct (map fst ?c)" using assms(1) by (simp add: distinct_update)
  have l: "length ?c \<le> Suc (length (session_cache s))" by (rule length_update_le)
  show ?thesis
  proof (cases "int (length ?c) > max_cache_size s")
    case False
    then show ?thesis by (simp add: cache_insert_def)
  next
    case True
    obtain k where o: "oldest_key ?c = Some k"
      using oldest_key_Some [of ?c] by auto
    from oldest_key_min [OF o] obtain p' t' where m: "(k, (p', t')) \<in> set ?c" by blast
    from length_delete_present [OF d m] l assms(2) True o show ?thesis
      by (simp add: cache_insert_def)
  qed
qed

lemma cache_insert_evicts_least:
  assumes "int (length (AList.update sid (p, t) (session_cache s))) > max_cache_size s"
  shows "\<exists>k q tk. oldest_key (AList.update sid (p, t) (session_cache s)) = Some k \<and>
           session_cache (cache_insert sid p t s) =
             AList.delete k (AList.update sid (p, t) (session_cache s)) \<and>
           (k, (q, tk)) \<in> set (AList.update sid (p, t) (session_cache s)) \<and>
           (\<forall>e\<in>set (AList.update sid (p, t) (session_cache s)). tk \<le> snd (snd e))"
proof -
  let ?c = "AList.update sid (p, t) (session_cache s)"
  obtain k where o: "oldest_key ?c = Some k"
    using oldest_key_Some [of ?c] by auto
  from oldest_key_min [OF o] obtain q tk where "(k, (q, tk)) \<in> set ?c"
    and "\<forall>e\<in>set ?c. tk \<le> snd (snd e)"
    by blast
  with assms o show ?thesis by (auto simp: cache_insert_def)
qed

text \<open>The scenario of C5 with capacity 2: put A, put B, get A, put C leaves A and C.\<close>

lemma lru_scenario_capacity_2:
  "map fst (session_cache
     (projr (save_session ''C'' indexed_processor None 4 4 4
       (snd (load_session ''A'' 3 3
         (projr (save_session ''B'' indexed_processor None 2 2 2
           (projr (save_session ''A'' indexed_processor None 1 1 1
             (default_store\<lparr> max_cache_size := 2 \<rparr>)))))))))) = [''A'', ''C'']"
  by code_simp

section \<open>The cleanup scan\<close>

lemma clean_meta_file_timeout [simp]:
  "session_timeout (clean_meta_file now f s) = session_timeout s"
  by (simp add: clean_meta_file_def split: option.splits file_content.splits)

lemma delete_session_absent: "session_absent k (snd (delete_session k s))"
  by (simp add: session_absent_def)

lemma delete_session_keeps_absent:
  "session_absent k s \<Longrightarrow> session_absent k (snd (delete_session k' s))"
  by (simp add: session_absent_def)

lemma clean_meta_file_keeps_absent:
  "session_absent k s \<Longrightarrow> session_absent k (clean_meta_file now f s)"
  by (simp add: clean_meta_file_def delete_session_keeps_absent
      split: option.splits file_content.splits)

lemma clean_meta_file_inv:
  assumes "session_absent k s \<or> map_of (files s) (get_metadata_path k) = Some (MetaJson m)"
  shows "session_absent k (clean_meta_file now f s) \<or>
         map_of (files (clean_meta_file now f s)) (get_metadata_path k) = Some (MetaJson m)"
proof (cases "session_absent k s")
  case True
  then show ?thesis by (simp add: clean_meta_file_keeps_absent)
next
  case False
  with assms have f: "map_of (files s) (get_metadata_path k) = Some (MetaJson m)" by simp
  have "clean_meta_file now f s = s \<or>
      (\<exists>k'. clean_meta_file now f s = snd (delete_session k' s))"
    by (cases "map_of (files s) f"; cases "the (map_of (files s) f)")
       (auto simp: clean_meta_file_def)
  then show ?thesis
  proof
    assume "clean_meta_file now f s = s"
    with f show ?thesis by simp
  next
    assume "\<exists>k'. clean_meta_file now f s = snd (delete_session k' s)"
    then obtain k' where d: "clean_meta_file now f s = snd (delete_session k' s)"
      by blast
    show ?thesis
      using f by (cases "k' = k") (simp_all add: d delete_session_absent)
  qed
qed

lemma clean_meta_file_target:
  assumes "session_absent k s \<or> map_of (files s) (get_metadata_path k) = Some (MetaJson m)"
    and "session_id m = k" and "now - last_accessed m > session_timeout s"
  shows "session_absent k (clean_meta_file now (get_metadata_path k) s)"
proof (cases "session_absent k s")
  case True
  then show ?thesis by (rule clean_meta_file_keeps_absent)
next
  case False
  with assms(1) have "map_of (files s) (get_metadata_path k) = Some (MetaJson m)" by simp
  with assms(2,3) show ?thesis
    by (simp add: clean_meta_file_def delete_session_absent)
qed

lemma fold_clean_meta_file_keeps_absent:
  "session_absent k s \<Longrightarrow> session_absent k (fold (clean_meta_file now) fs s)"
  by (induction fs arbitrary: s) (simp_all add: clean_meta_file_keeps_absent)

lemma fold_clean_meta_file_removes:
  assumes "session_absent k s \<or> map_of (files s) (get_metadata_path k) = Some (MetaJson m)"
    and "session_id m = k" and "now - last_accessed m > session_timeout s"
    and "get_metadata_path k \<in> set fs"
  shows "session_absent k (fold (clean_meta_file now) fs s)"
  using assms
proof (induction fs arbitrary: s)
  case Nil
  then show ?case by simp
next
  case (Cons f fs)
  show ?case
  proof (cases "f = get_metadata_path k")
    case True
    from clean_meta_file_target [OF Cons.prems(1,2,3)]
    show ?thesis by (simp add: True fold_clean_meta_file_keeps_absent)
  next
    case False
    with Cons.prems(4) have mem: "get_metadata_path k \<in> set fs" by simp
    from Cons.IH [OF clean_meta_file_inv [OF Cons.prems(1)] Cons.prems(2) _ mem] Cons.prems(3)
    show ?thesis by simp
  qed
qed

text \<open>The first half of C1: a scan removes every session whose metadata file says that
  the last access is longer ago than the timeout, from the cache and from the disk.\<close>

lemma cleanup_scan_removes_expired:
  assumes "map_of (files s) (get_metadata_path k) = Some (MetaJson m)"
    and "session_id m = k" and "now - last_accessed m > session_timeout s"
  shows "session_absent k (cleanup_scan now s)"
proof -
  let ?s1 = "clean_memory_cache now s"
  have f1: "files ?s1 = files s" and t1: "session_timeout ?s1 = session_timeout s"
    by (simp_all add: clean_memory_cache_def)
  from assms(1) have "get_metadata_path k \<in> fst ` set (files s)"
    by (metis map_of_eq_None_iff option.distinct(1))
  moreover have "suffix ''_meta.json'' (get_metadata_path k)"
    by (simp add: get_metadata_path_def suffix_def)
  ultimately have mem: "get_metadata_path k \<in> set (glob_meta_files ?s1)"
    by (simp add: glob_meta_files_def f1)
  from assms(1) have inv: "session_absent k ?s1 \<or>
      map_of (files ?s1) (get_metadata_path k) = Some (MetaJson m)"
    by (simp add: f1)
  from fold_clean_meta_file_removes [OF inv assms(2) _ mem] assms(3) t1
  show ?thesis by (simp add: cleanup_scan_def Let_def)
qed

text \<open>
  C1, at the failing input. A session is saved on the default store (timeout 86400) at
  clock reading 0 and loaded at 86401: the load is a cache hit, returns the payload and
  refreshes the timestamp of the cache entry only. The scan that follows at 86401 keeps
  the cache entry in its first pass, reads \<^verbatim>\<open>last_accessed = 0\<close> from the metadata file
  and deletes the session from the cache and from the disk.
\<close>

theorem scan_after_cache_hit_deletes_session:
  "fst (load_session ''s1'' 86401 86401
     (projr (save_session ''s1'' indexed_processor None 0 0 0 default_store))) = Some indexed_processor \<and>
   map_of (session_cache (snd (load_session ''s1'' 86401 86401
     (projr (save_session ''s1'' indexed_processor None 0 0 0 default_store))))) ''s1'' =
     Some (indexed_processor, 86401) \<and>
   session_absent ''s1'' (cleanup_scan 86401 (snd (load_session ''s1'' 86401 86401
     (projr (save_session ''s1'' indexed_processor None 0 0 0 default_store)))))"
  by code_simp


text \<open>The sibling path: after a restart the same load misses the cache, reads the session
  from disk and rewrites \<^verbatim>\<open>last_accessed\<close>; the scan right after it keeps the session in
  both tiers.\<close>

lemma scan_after_disk_load_keeps_session:
  "fst (load_session ''s1'' 86401 86401
     (restart (projr (save_session ''s1'' indexed_processor None 0 0 0 default_store)))) =
     Some indexed_processor \<and>
   map_of (session_cache (cleanup_scan 86401 (snd (load_session ''s1'' 86401 86401
     (restart (projr (save_session ''s1'' indexed_processor None 0 0 0 default_store))))))) ''s1'' =
     Some (indexed_processor, 86401) \<and>
   map_of (files (cleanup_scan 86401 (snd (load_session ''s1'' 86401 86401
     (restart (projr (save_session ''s1'' indexed_processor None 0 0 0 default_store)))))))
     (get_session_path ''s1'') = Some (Pickled indexed_processor)"
  by code_simp

end
